theory Spec2Isabelle
  imports Main "HOL-Library.Monad_Syntax"
begin

section \<open>Keys, records, nodes and the tree state\<close>

text \<open>
  Keys are Go \<open>interface{}\<close> values. Three kinds occur in the package: the nil interface
  (the dummy separator of the first child of an internal node), a value of the unexported type
  \<open>keyMinMax\<close> (the two exported constants \<open>KeyMin = keyMinMax(-1)\<close> and
  \<open>KeyMax = keyMinMax(1)\<close>), and a key of the caller.
\<close>

datatype 'k key = KNil | KMinMax int | KUser 'k

definition KeyMin :: "'k key" where
  "KeyMin = KMinMax (- 1)"

definition KeyMax :: "'k key" where
  "KeyMax = KMinMax 1"

text \<open>\<open>x == KeyMin\<close> for \<open>x\<close> of type \<open>keyMinMax\<close>.\<close>

definition isKeyMin :: "int \<Rightarrow> bool" where
  "isKeyMin x \<longleftrightarrow> x = - 1"

text \<open>
  \<open>KeyComparer\<close> is a function of the caller; it may panic (for instance by a failed type
  assertion on a key that is not of the caller's type), which is the result \<open>None\<close>.
\<close>

type_synonym 'k KeyComparer = "'k key \<Rightarrow> 'k key \<Rightarrow> int option"

text \<open>Pointers are addresses; \<open>0\<close> is nil.\<close>

type_synonym ptr = nat

datatype ('k, 'v) rcd = Rcd (Key: "'k key") (Value: 'v)

datatype 'k nodeChild = NodeChild (CKey: "'k key") (CValue: ptr)

datatype ('k, 'v) node =
    Leaf (Records: "('k, 'v) rcd list") (Prev: ptr) (Next: ptr)
  | NonLeaf (Children: "'k nodeChild list")

text \<open>
  The state is the \<open>BPTree\<close> struct (with the two fields of its \<open>leafList\<close>) together with
  the part of the Go heap that holds the nodes: address \<open>p > 0\<close> is the cell
  \<open>heap ! (p - 1)\<close>, and a new node is allocated at the end.
\<close>

record ('k, 'v) BPTree =
  maxDegree :: int
  keyComparer :: "'k KeyComparer"
  tail :: ptr
  head :: ptr
  root :: ptr
  height :: int
  heap :: "('k, 'v) node list"

datatype recordPathComponent = RPC (rpcNode: ptr) (rpcIndex: int)

type_synonym recordPath = "recordPathComponent list"

subsection \<open>Go integers and slices\<close>

text \<open>Go's \<open>/\<close> on integers truncates toward zero.\<close>

definition quot :: "int \<Rightarrow> int \<Rightarrow> int" where
  "quot a b = sgn a * sgn b * (\<bar>a\<bar> div \<bar>b\<bar>)"

text \<open>\<open>xs[i]\<close> panics out of range.\<close>

definition index :: "'a list \<Rightarrow> int \<Rightarrow> 'a option" where
  "index xs i = (if 0 \<le> i \<and> i < int (length xs) then Some (xs ! nat i) else None)"

text \<open>\<open>xs[i] = v\<close>.\<close>

definition assign :: "'a list \<Rightarrow> int \<Rightarrow> 'a \<Rightarrow> 'a list option" where
  "assign xs i v = (if 0 \<le> i \<and> i < int (length xs) then Some (xs[nat i := v]) else None)"

text \<open>
  The three slice primitives are written twice in the source, with the same text, for
  \<open>records\<close> and for \<open>nodeChildren\<close>: append a zero element, shift the tail and store
  (\<open>Insert\<close>); read, shift and cut the last element (\<open>Remove\<close>); clear and reslice
  (\<open>Truncate\<close>, which every caller reaches with \<open>length \<le> len\<close> only, because the
  \<open>make\<close> or the slice expression before it panics otherwise).
\<close>

definition slice_insert :: "'a list \<Rightarrow> 'a \<Rightarrow> int \<Rightarrow> 'a list option" where
  "slice_insert xs x i =
     (if 0 \<le> i \<and> i \<le> int (length xs) then Some (take (nat i) xs @ x # drop (nat i) xs)
      else None)"

definition slice_remove :: "'a list \<Rightarrow> int \<Rightarrow> ('a \<times> 'a list) option" where
  "slice_remove xs i =
     (if 0 \<le> i \<and> i < int (length xs)
      then Some (xs ! nat i, take (nat i) xs @ drop (Suc (nat i)) xs)
      else None)"

definition slice_truncate :: "'a list \<Rightarrow> int \<Rightarrow> 'a list option" where
  "slice_truncate xs n =
     (if 0 \<le> n \<and> n \<le> int (length xs) then Some (take (nat n) xs) else None)"

text \<open>\<open>xs[k:]\<close>, copied into a fresh slice made with \<open>make(_, len(xs) - k)\<close>.\<close>

definition slice_from :: "'a list \<Rightarrow> int \<Rightarrow> 'a list option" where
  "slice_from xs k =
     (if 0 \<le> k \<and> k \<le> int (length xs) then Some (drop (nat k) xs) else None)"

definition InsertRecord :: "('k, 'v) rcd list \<Rightarrow> ('k, 'v) rcd \<Rightarrow> int \<Rightarrow> ('k, 'v) rcd list option" where
  "InsertRecord rs record1 recordIndex = slice_insert rs record1 recordIndex"

definition RemoveRecord :: "('k, 'v) rcd list \<Rightarrow> int \<Rightarrow> (('k, 'v) rcd \<times> ('k, 'v) rcd list) option" where
  "RemoveRecord rs recordIndex = slice_remove rs recordIndex"

definition InsertNodeChild :: "'k nodeChild list \<Rightarrow> 'k nodeChild \<Rightarrow> int \<Rightarrow> 'k nodeChild list option" where
  "InsertNodeChild nc nodeChild1 nodeChildIndex = slice_insert nc nodeChild1 nodeChildIndex"

definition RemoveNodeChild :: "'k nodeChild list \<Rightarrow> int \<Rightarrow> ('k nodeChild \<times> 'k nodeChild list) option" where
  "RemoveNodeChild nc nodeChildIndex = slice_remove nc nodeChildIndex"

subsection \<open>Occupancy predicates of \<open>bptree.go\<close>\<close>

text \<open>
  \<open>len(rs)*2 <= maxDegree\<close>, \<open>len(rs) == maxDegree\<close>, \<open>len(nc)*2 <= maxDegree-1\<close> and
  \<open>len(nc) == maxDegree\<close>, on the integers. Go computes \<open>maxDegree-1\<close> on a machine
  \<open>int\<close>, which wraps around at the least \<open>int\<close> only: the predicates are those of the
  code for every maximum degree that a tree has (\<open>Init\<close> accepts none below 3), and they
  are stated for these degrees.
\<close>

definition records_IsSparse :: "('k, 'v) rcd list \<Rightarrow> int \<Rightarrow> bool" where
  "records_IsSparse rs maxDegree' \<longleftrightarrow> int (length rs) * 2 \<le> maxDegree'"

definition records_IsFull :: "('k, 'v) rcd list \<Rightarrow> int \<Rightarrow> bool" where
  "records_IsFull rs maxDegree' \<longleftrightarrow> int (length rs) = maxDegree'"

definition nodeChildren_IsSparse :: "'k nodeChild list \<Rightarrow> int \<Rightarrow> bool" where
  "nodeChildren_IsSparse nc maxDegree' \<longleftrightarrow> int (length nc) * 2 \<le> maxDegree' - 1"

definition nodeChildren_IsFull :: "'k nodeChild list \<Rightarrow> int \<Rightarrow> bool" where
  "nodeChildren_IsFull nc maxDegree' \<longleftrightarrow> int (length nc) = maxDegree'"

subsection \<open>Binary search\<close>

text \<open>
  The loop of \<open>LocateRecord\<close> and of \<open>LocateNodeChild\<close>, over the keys of the entries:
  \<open>for i < j { k := (i + j) / 2; if keyComparer(xs[k].Key, key) < 0 { i = k + 1 } else { j = k } }\<close>.
\<close>

partial_function (option) locate_loop ::
  "'k KeyComparer \<Rightarrow> 'k key list \<Rightarrow> 'k key \<Rightarrow> int \<Rightarrow> int \<Rightarrow> int option" where
  "locate_loop keyComparer' ks key' i j =
     (if i < j then
        (let k = quot (i + j) 2 in
         do {
           x \<leftarrow> index ks k;
           d \<leftarrow> keyComparer' x key';
           if d < 0 then locate_loop keyComparer' ks key' (k + 1) j
           else locate_loop keyComparer' ks key' i k
         })
      else Some i)"

declare locate_loop.simps [code]

definition locate_tail ::
  "'k KeyComparer \<Rightarrow> 'k key list \<Rightarrow> 'k key \<Rightarrow> int \<Rightarrow> (int \<times> bool) option" where
  "locate_tail keyComparer' ks key' i =
     (let n = int (length ks) in
      do {
        x \<leftarrow> index ks i;
        d \<leftarrow> keyComparer' x key';
        if d = 0 then Some (i, True)
        else Some (if d < 0 \<and> i = n - 1 then n else i, False)
      })"

definition LocateRecord ::
  "('k, 'v) rcd list \<Rightarrow> 'k key \<Rightarrow> 'k KeyComparer \<Rightarrow> (int \<times> bool) option" where
  "LocateRecord rs key' keyComparer' =
     (let n = int (length rs) in
      if n = 0 then Some (0, False)
      else case key' of
        KMinMax x \<Rightarrow> Some (if isKeyMin x then 0 else n - 1, True)
      | _ \<Rightarrow> do {
          i \<leftarrow> locate_loop keyComparer' (map Key rs) key' 0 (n - 1);
          locate_tail keyComparer' (map Key rs) key' i
        })"

definition LocateNodeChild ::
  "'k nodeChild list \<Rightarrow> 'k key \<Rightarrow> 'k KeyComparer \<Rightarrow> (int \<times> bool) option" where
  "LocateNodeChild nc key' keyComparer' =
     (let n = int (length nc) in
      case key' of
        KMinMax x \<Rightarrow> Some (if isKeyMin x then 0 else n - 1, True)
      | _ \<Rightarrow> do {
          i \<leftarrow> locate_loop keyComparer' (map CKey nc) key' 1 (n - 1);
          locate_tail keyComparer' (map CKey nc) key' i
        })"

subsection \<open>The heap\<close>

definition deref :: "('k, 'v) BPTree \<Rightarrow> ptr \<Rightarrow> ('k, 'v) node option" where
  "deref bpt p = (if 0 < p \<and> p \<le> length (heap bpt) then Some (heap bpt ! (p - 1)) else None)"

definition store :: "('k, 'v) BPTree \<Rightarrow> ptr \<Rightarrow> ('k, 'v) node \<Rightarrow> ('k, 'v) BPTree" where
  "store bpt p n = (if 0 < p then bpt\<lparr>heap := (heap bpt)[p - 1 := n]\<rparr> else bpt)"

definition alloc :: "('k, 'v) BPTree \<Rightarrow> ('k, 'v) node \<Rightarrow> ('k, 'v) BPTree \<times> ptr" where
  "alloc bpt n = (bpt\<lparr>heap := heap bpt @ [n]\<rparr>, Suc (length (heap bpt)))"

text \<open>
  \<open>(*leaf)(p)\<close> and \<open>(*nonLeaf)(p)\<close> followed by a field access: a nil pointer panics; the
  model also stops where the cast would read a node of the other kind.
\<close>

definition leafRecords :: "('k, 'v) BPTree \<Rightarrow> ptr \<Rightarrow> ('k, 'v) rcd list option" where
  "leafRecords bpt p = (case deref bpt p of Some (Leaf rs pv nx) \<Rightarrow> Some rs | _ \<Rightarrow> None)"

definition leafPrev :: "('k, 'v) BPTree \<Rightarrow> ptr \<Rightarrow> ptr option" where
  "leafPrev bpt p = (case deref bpt p of Some (Leaf rs pv nx) \<Rightarrow> Some pv | _ \<Rightarrow> None)"

definition leafNext :: "('k, 'v) BPTree \<Rightarrow> ptr \<Rightarrow> ptr option" where
  "leafNext bpt p = (case deref bpt p of Some (Leaf rs pv nx) \<Rightarrow> Some nx | _ \<Rightarrow> None)"

definition nonLeafChildren :: "('k, 'v) BPTree \<Rightarrow> ptr \<Rightarrow> 'k nodeChild list option" where
  "nonLeafChildren bpt p = (case deref bpt p of Some (NonLeaf cs) \<Rightarrow> Some cs | _ \<Rightarrow> None)"

definition setRecords :: "('k, 'v) BPTree \<Rightarrow> ptr \<Rightarrow> ('k, 'v) rcd list \<Rightarrow> ('k, 'v) BPTree option" where
  "setRecords bpt p rs =
     (case deref bpt p of Some (Leaf rs0 pv nx) \<Rightarrow> Some (store bpt p (Leaf rs pv nx)) | _ \<Rightarrow> None)"

definition setPrev :: "('k, 'v) BPTree \<Rightarrow> ptr \<Rightarrow> ptr \<Rightarrow> ('k, 'v) BPTree option" where
  "setPrev bpt p q =
     (case deref bpt p of Some (Leaf rs pv nx) \<Rightarrow> Some (store bpt p (Leaf rs q nx)) | _ \<Rightarrow> None)"

definition setNext :: "('k, 'v) BPTree \<Rightarrow> ptr \<Rightarrow> ptr \<Rightarrow> ('k, 'v) BPTree option" where
  "setNext bpt p q =
     (case deref bpt p of Some (Leaf rs pv nx) \<Rightarrow> Some (store bpt p (Leaf rs pv q)) | _ \<Rightarrow> None)"

definition setChildren :: "('k, 'v) BPTree \<Rightarrow> ptr \<Rightarrow> 'k nodeChild list \<Rightarrow> ('k, 'v) BPTree option" where
  "setChildren bpt p cs =
     (case deref bpt p of Some (NonLeaf cs0) \<Rightarrow> Some (store bpt p (NonLeaf cs)) | _ \<Rightarrow> None)"

text \<open>\<open>p.Children[i].Key = k\<close>.\<close>

definition setChildKey :: "('k, 'v) BPTree \<Rightarrow> ptr \<Rightarrow> int \<Rightarrow> 'k key \<Rightarrow> ('k, 'v) BPTree option" where
  "setChildKey bpt p i k =
     do {
       cs \<leftarrow> nonLeafChildren bpt p;
       c \<leftarrow> index cs i;
       cs' \<leftarrow> assign cs i (NodeChild k (CValue c));
       setChildren bpt p cs'
     }"

subsection \<open>The leaf list\<close>

definition leaf_insert :: "('k, 'v) BPTree \<Rightarrow> ptr \<Rightarrow> ptr \<Rightarrow> ptr \<Rightarrow> ('k, 'v) BPTree option" where
  "leaf_insert bpt l prev' next' =
     do {
       bpt \<leftarrow> setPrev bpt l prev';
       bpt \<leftarrow> setNext bpt prev' l;
       bpt \<leftarrow> setNext bpt l next';
       setPrev bpt next' l
     }"

definition leaf_remove :: "('k, 'v) BPTree \<Rightarrow> ptr \<Rightarrow> ('k, 'v) BPTree option" where
  "leaf_remove bpt l =
     do {
       prev' \<leftarrow> leafPrev bpt l;
       next' \<leftarrow> leafNext bpt l;
       bpt \<leftarrow> setNext bpt prev' next';
       setPrev bpt next' prev'
     }"

definition leafList_Init :: "('k, 'v) BPTree \<Rightarrow> ptr \<Rightarrow> ('k, 'v) BPTree option" where
  "leafList_Init bpt leaf =
     do {
       bpt \<leftarrow> setPrev bpt leaf leaf;
       bpt \<leftarrow> setNext bpt leaf leaf;
       Some (bpt\<lparr>tail := leaf, head := leaf\<rparr>)
     }"

definition InsertLeafAfter :: "('k, 'v) BPTree \<Rightarrow> ptr \<Rightarrow> ptr \<Rightarrow> ('k, 'v) BPTree option" where
  "InsertLeafAfter bpt leaf otherLeaf =
     do {
       next' \<leftarrow> leafNext bpt otherLeaf;
       bpt \<leftarrow> leaf_insert bpt leaf otherLeaf next';
       Some (if otherLeaf = tail bpt then bpt\<lparr>tail := leaf\<rparr> else bpt)
     }"

definition RemoveLeaf :: "('k, 'v) BPTree \<Rightarrow> ptr \<Rightarrow> ('k, 'v) BPTree option" where
  "RemoveLeaf bpt leaf =
     do {
       bpt \<leftarrow> leaf_remove bpt leaf;
       if leaf = tail bpt then do { p \<leftarrow> leafPrev bpt leaf; Some (bpt\<lparr>tail := p\<rparr>) }
       else if leaf = head bpt then do { n \<leftarrow> leafNext bpt leaf; Some (bpt\<lparr>head := n\<rparr>) }
       else Some bpt
     }"

subsection \<open>Record paths (\<open>recordpath.go\<close>)\<close>

definition Append :: "recordPath \<Rightarrow> ptr \<Rightarrow> int \<Rightarrow> recordPath" where
  "Append rp node' i = rp @ [RPC node' i]"

definition Prepend :: "recordPath \<Rightarrow> ptr \<Rightarrow> int \<Rightarrow> recordPath" where
  "Prepend rp node' i = RPC node' i # rp"

definition Unprepend :: "recordPath \<Rightarrow> recordPath option" where
  "Unprepend rp = map_option snd (slice_remove rp 0)"

definition LocateRecord_path :: "recordPath \<Rightarrow> (ptr \<times> int) option" where
  "LocateRecord_path rp =
     do { c \<leftarrow> index rp (int (length rp) - 1); Some (rpcNode c, rpcIndex c) }"

text \<open>\<open>rp[i].SetLeaf(p)\<close>, \<open>rp[i].SetNonLeaf(p)\<close>.\<close>

definition SetNode :: "recordPath \<Rightarrow> int \<Rightarrow> ptr \<Rightarrow> recordPath option" where
  "SetNode rp i p = do { c \<leftarrow> index rp i; assign rp i (RPC p (rpcIndex c)) }"

text \<open>\<open>rp[i].SetRecordIndex(j)\<close>, \<open>rp[i].SetNodeChildIndex(j)\<close>.\<close>

definition SetIndex :: "recordPath \<Rightarrow> int \<Rightarrow> int \<Rightarrow> recordPath option" where
  "SetIndex rp i j = do { c \<leftarrow> index rp i; assign rp i (RPC (rpcNode c) j) }"

subsection \<open>Leaves and internal nodes of \<open>bptree.go\<close>\<close>

definition leaf_Split :: "('k, 'v) BPTree \<Rightarrow> ptr \<Rightarrow> int \<Rightarrow> ptr \<Rightarrow> int \<Rightarrow> (('k, 'v) BPTree \<times> ptr) option" where
  "leaf_Split bpt l numberOfRecords parent index' =
     do {
       rs \<leftarrow> leafRecords bpt l;
       srs \<leftarrow> slice_from rs numberOfRecords;
       rs' \<leftarrow> slice_truncate rs numberOfRecords;
       bpt \<leftarrow> setRecords bpt l rs';
       r0 \<leftarrow> index srs 0;
       let (bpt, sibling) = alloc bpt (Leaf srs 0 0);
       cs \<leftarrow> nonLeafChildren bpt parent;
       cs' \<leftarrow> InsertNodeChild cs (NodeChild (Key r0) sibling) index';
       bpt \<leftarrow> setChildren bpt parent cs';
       Some (bpt, sibling)
     }"

definition leaf_MergeToLeft :: "('k, 'v) BPTree \<Rightarrow> ptr \<Rightarrow> ptr \<Rightarrow> int \<Rightarrow> (('k, 'v) BPTree \<times> ptr) option" where
  "leaf_MergeToLeft bpt l parent index' =
     do {
       cs \<leftarrow> nonLeafChildren bpt parent;
       c \<leftarrow> index cs (index' - 1);
       let sibling = CValue c;
       (c', cs') \<leftarrow> RemoveNodeChild cs index';
       bpt \<leftarrow> setChildren bpt parent cs';
       srs \<leftarrow> leafRecords bpt sibling;
       rs \<leftarrow> leafRecords bpt l;
       bpt \<leftarrow> setRecords bpt sibling (srs @ rs);
       bpt \<leftarrow> setRecords bpt l [];
       Some (bpt, sibling)
     }"

definition leaf_MergeRight :: "('k, 'v) BPTree \<Rightarrow> ptr \<Rightarrow> ptr \<Rightarrow> int \<Rightarrow> (('k, 'v) BPTree \<times> ptr) option" where
  "leaf_MergeRight bpt l parent index' =
     do {
       cs \<leftarrow> nonLeafChildren bpt parent;
       c \<leftarrow> index cs (index' + 1);
       let sibling = CValue c;
       (c', cs') \<leftarrow> RemoveNodeChild cs (index' + 1);
       bpt \<leftarrow> setChildren bpt parent cs';
       rs \<leftarrow> leafRecords bpt l;
       srs \<leftarrow> leafRecords bpt sibling;
       bpt \<leftarrow> setRecords bpt l (rs @ srs);
       bpt \<leftarrow> setRecords bpt sibling [];
       Some (bpt, sibling)
     }"

definition StealRecordLeft :: "('k, 'v) BPTree \<Rightarrow> ptr \<Rightarrow> ptr \<Rightarrow> int \<Rightarrow> ('k, 'v) BPTree option" where
  "StealRecordLeft bpt l parent index' =
     do {
       cs \<leftarrow> nonLeafChildren bpt parent;
       c \<leftarrow> index cs (index' - 1);
       let sibling = CValue c;
       srs \<leftarrow> leafRecords bpt sibling;
       (record', srs') \<leftarrow> RemoveRecord srs (int (length srs) - 1);
       bpt \<leftarrow> setRecords bpt sibling srs';
       rs \<leftarrow> leafRecords bpt l;
       rs' \<leftarrow> InsertRecord rs record' 0;
       bpt \<leftarrow> setRecords bpt l rs';
       setChildKey bpt parent index' (Key record')
     }"

definition StealRecordRight :: "('k, 'v) BPTree \<Rightarrow> ptr \<Rightarrow> ptr \<Rightarrow> int \<Rightarrow> ('k, 'v) BPTree option" where
  "StealRecordRight bpt l parent index' =
     do {
       cs \<leftarrow> nonLeafChildren bpt parent;
       c \<leftarrow> index cs (index' + 1);
       let sibling = CValue c;
       srs \<leftarrow> leafRecords bpt sibling;
       (record', srs') \<leftarrow> RemoveRecord srs 0;
       bpt \<leftarrow> setRecords bpt sibling srs';
       r0 \<leftarrow> index srs' 0;
       bpt \<leftarrow> setChildKey bpt parent (index' + 1) (Key r0);
       rs \<leftarrow> leafRecords bpt l;
       rs' \<leftarrow> InsertRecord rs record' (int (length rs));
       setRecords bpt l rs'
     }"

definition nonLeaf_Split :: "('k, 'v) BPTree \<Rightarrow> ptr \<Rightarrow> int \<Rightarrow> ptr \<Rightarrow> int \<Rightarrow> (('k, 'v) BPTree \<times> ptr) option" where
  "nonLeaf_Split bpt nl numberOfChildren parent index' =
     do {
       cs \<leftarrow> nonLeafChildren bpt nl;
       scs \<leftarrow> slice_from cs numberOfChildren;
       c0 \<leftarrow> index scs 0;
       let key' = CKey c0;
       scs \<leftarrow> assign scs 0 (NodeChild KNil (CValue c0));
       cs' \<leftarrow> slice_truncate cs numberOfChildren;
       bpt \<leftarrow> setChildren bpt nl cs';
       let (bpt, sibling) = alloc bpt (NonLeaf scs);
       pcs \<leftarrow> nonLeafChildren bpt parent;
       pcs' \<leftarrow> InsertNodeChild pcs (NodeChild key' sibling) index';
       bpt \<leftarrow> setChildren bpt parent pcs';
       Some (bpt, sibling)
     }"

definition nonLeaf_MergeToLeft :: "('k, 'v) BPTree \<Rightarrow> ptr \<Rightarrow> ptr \<Rightarrow> int \<Rightarrow> (('k, 'v) BPTree \<times> ptr) option" where
  "nonLeaf_MergeToLeft bpt nl parent index' =
     do {
       pcs \<leftarrow> nonLeafChildren bpt parent;
       c \<leftarrow> index pcs (index' - 1);
       let sibling = CValue c;
       pc \<leftarrow> index pcs index';
       bpt \<leftarrow> setChildKey bpt nl 0 (CKey pc);
       pcs \<leftarrow> nonLeafChildren bpt parent;
       (c', pcs') \<leftarrow> RemoveNodeChild pcs index';
       bpt \<leftarrow> setChildren bpt parent pcs';
       scs \<leftarrow> nonLeafChildren bpt sibling;
       cs \<leftarrow> nonLeafChildren bpt nl;
       bpt \<leftarrow> setChildren bpt sibling (scs @ cs);
       bpt \<leftarrow> setChildren bpt nl [];
       Some (bpt, sibling)
     }"

definition nonLeaf_MergeRight :: "('k, 'v) BPTree \<Rightarrow> ptr \<Rightarrow> ptr \<Rightarrow> int \<Rightarrow> (('k, 'v) BPTree \<times> ptr) option" where
  "nonLeaf_MergeRight bpt nl parent index' =
     do {
       pcs \<leftarrow> nonLeafChildren bpt parent;
       c \<leftarrow> index pcs (index' + 1);
       let sibling = CValue c;
       bpt \<leftarrow> setChildKey bpt sibling 0 (CKey c);
       pcs \<leftarrow> nonLeafChildren bpt parent;
       (c', pcs') \<leftarrow> RemoveNodeChild pcs (index' + 1);
       bpt \<leftarrow> setChildren bpt parent pcs';
       cs \<leftarrow> nonLeafChildren bpt nl;
       scs \<leftarrow> nonLeafChildren bpt sibling;
       bpt \<leftarrow> setChildren bpt nl (cs @ scs);
       bpt \<leftarrow> setChildren bpt sibling [];
       Some (bpt, sibling)
     }"

definition StealChildLeft :: "('k, 'v) BPTree \<Rightarrow> ptr \<Rightarrow> ptr \<Rightarrow> int \<Rightarrow> ('k, 'v) BPTree option" where
  "StealChildLeft bpt nl parent index' =
     do {
       pcs \<leftarrow> nonLeafChildren bpt parent;
       c \<leftarrow> index pcs (index' - 1);
       let sibling = CValue c;
       scs \<leftarrow> nonLeafChildren bpt sibling;
       (child, scs') \<leftarrow> RemoveNodeChild scs (int (length scs) - 1);
       bpt \<leftarrow> setChildren bpt sibling scs';
       pcs \<leftarrow> nonLeafChildren bpt parent;
       pc \<leftarrow> index pcs index';
       bpt \<leftarrow> setChildKey bpt nl 0 (CKey pc);
       bpt \<leftarrow> setChildKey bpt parent index' (CKey child);
       let child = NodeChild KNil (CValue child);
       cs \<leftarrow> nonLeafChildren bpt nl;
       cs' \<leftarrow> InsertNodeChild cs child 0;
       setChildren bpt nl cs'
     }"

definition StealChildRight :: "('k, 'v) BPTree \<Rightarrow> ptr \<Rightarrow> ptr \<Rightarrow> int \<Rightarrow> ('k, 'v) BPTree option" where
  "StealChildRight bpt nl parent index' =
     do {
       pcs \<leftarrow> nonLeafChildren bpt parent;
       c \<leftarrow> index pcs (index' + 1);
       let sibling = CValue c;
       scs \<leftarrow> nonLeafChildren bpt sibling;
       (child, scs') \<leftarrow> RemoveNodeChild scs 0;
       bpt \<leftarrow> setChildren bpt sibling scs';
       pcs \<leftarrow> nonLeafChildren bpt parent;
       pc \<leftarrow> index pcs (index' + 1);
       let child = NodeChild (CKey pc) (CValue child);
       scs \<leftarrow> nonLeafChildren bpt sibling;
       s0 \<leftarrow> index scs 0;
       bpt \<leftarrow> setChildKey bpt parent (index' + 1) (CKey s0);
       bpt \<leftarrow> setChildKey bpt sibling 0 KNil;
       cs \<leftarrow> nonLeafChildren bpt nl;
       cs' \<leftarrow> InsertNodeChild cs child (int (length cs));
       setChildren bpt nl cs'
     }"

section \<open>The tree engine of \<open>bptree.go\<close>\<close>

definition Init :: "int \<Rightarrow> 'k KeyComparer \<Rightarrow> ('k, 'v) BPTree option" where
  "Init maxDegree' keyComparer' =
     (if maxDegree' < 3 then None
      else
        (let bpt = \<lparr>maxDegree = maxDegree', keyComparer = keyComparer', tail = 0, head = 0,
                     root = 0, height = 0, heap = []\<rparr>;
             (bpt, root') = alloc bpt (Leaf [] 0 0)
         in do {
           bpt \<leftarrow> leafList_Init bpt root';
           Some (bpt\<lparr>root := root', height := 1\<rparr>)
         }))"

definition IsEmpty :: "('k, 'v) BPTree \<Rightarrow> bool option" where
  "IsEmpty bpt =
     (if height bpt = 1 then do { rs \<leftarrow> leafRecords bpt (root bpt); Some (length rs = 0) }
      else Some False)"

definition MaxDegree :: "('k, 'v) BPTree \<Rightarrow> int" where
  "MaxDegree bpt = maxDegree bpt"

definition Height :: "('k, 'v) BPTree \<Rightarrow> int" where
  "Height bpt = height bpt"

partial_function (option) findRecord_loop ::
  "('k, 'v) BPTree \<Rightarrow> 'k key \<Rightarrow> recordPath \<Rightarrow> ptr \<Rightarrow> (recordPath \<times> bool) option" where
  "findRecord_loop bpt key' rp node' =
     (if int (length rp) + 1 = height bpt then
        do {
          rs \<leftarrow> leafRecords bpt node';
          (i, ok) \<leftarrow> LocateRecord rs key' (keyComparer bpt);
          Some (Append rp node' i, ok)
        }
      else
        do {
          cs \<leftarrow> nonLeafChildren bpt node';
          (i, ok) \<leftarrow> LocateNodeChild cs key' (keyComparer bpt);
          let i = (if \<not> ok then i - 1 else i);
          c \<leftarrow> index cs i;
          findRecord_loop bpt key' (Append rp node' i) (CValue c)
        })"

declare findRecord_loop.simps [code]

definition findRecord :: "('k, 'v) BPTree \<Rightarrow> 'k key \<Rightarrow> (recordPath \<times> bool) option" where
  "findRecord bpt key' = findRecord_loop bpt key' [] (root bpt)"

definition increaseHeight :: "('k, 'v) BPTree \<Rightarrow> ('k, 'v) BPTree" where
  "increaseHeight bpt =
     (let (bpt', root') = alloc bpt (NonLeaf [NodeChild KNil (root bpt)])
      in bpt'\<lparr>root := root', height := height bpt + 1\<rparr>)"

definition decreaseHeight :: "('k, 'v) BPTree \<Rightarrow> ('k, 'v) BPTree option" where
  "decreaseHeight bpt =
     do {
       cs \<leftarrow> nonLeafChildren bpt (root bpt);
       c \<leftarrow> index cs 0;
       Some (bpt\<lparr>root := CValue c, height := height bpt - 1\<rparr>)
     }"

text \<open>
  The loop of \<open>trySyncKey\<close>, \<open>for i := len(recordPath) - 2; i >= 0; i--\<close>, walks the
  components above the leaf from the deepest one up; \<open>n\<close> is \<open>i + 1\<close>.
\<close>

fun trySyncKey_loop :: "('k, 'v) BPTree \<Rightarrow> recordPath \<Rightarrow> 'k key \<Rightarrow> nat \<Rightarrow> ('k, 'v) BPTree option" where
  "trySyncKey_loop bpt rp k 0 = Some bpt"
| "trySyncKey_loop bpt rp k (Suc i) =
     (if rpcIndex (rp ! i) \<ge> 1 then setChildKey bpt (rpcNode (rp ! i)) (rpcIndex (rp ! i)) k
      else trySyncKey_loop bpt rp k i)"

definition trySyncKey :: "('k, 'v) BPTree \<Rightarrow> recordPath \<Rightarrow> ('k, 'v) BPTree option" where
  "trySyncKey bpt rp =
     do {
       (leaf, recordIndex) \<leftarrow> LocateRecord_path rp;
       rs \<leftarrow> leafRecords bpt leaf;
       if recordIndex = 0 \<and> length rs \<ge> 1 then
         do { r0 \<leftarrow> index rs 0; trySyncKey_loop bpt rp (Key r0) (length rp - 1) }
       else Some bpt
     }"

definition trySplitLeaf ::
  "('k, 'v) BPTree \<Rightarrow> recordPath \<Rightarrow> int \<Rightarrow> (('k, 'v) BPTree \<times> recordPath \<times> int) option" where
  "trySplitLeaf bpt rp i =
     do {
       c \<leftarrow> index rp i;
       let leaf = rpcNode c;
       let recordIndex = rpcIndex c;
       rs \<leftarrow> leafRecords bpt leaf;
       if records_IsFull rs (maxDegree bpt) then
         do {
           let numberOfRecords = quot (maxDegree bpt) 2;
           let (bpt, rp, i) =
             (if i = 0 then
                (let bpt' = increaseHeight bpt in (bpt', Prepend rp (root bpt') 0, i + 1))
              else (bpt, rp, i));
           pc \<leftarrow> index rp (i - 1);
           let leafParent = rpcNode pc;
           let leafIndex = rpcIndex pc;
           (bpt, leafSibling) \<leftarrow> leaf_Split bpt leaf numberOfRecords leafParent (leafIndex + 1);
           bpt \<leftarrow> InsertLeafAfter bpt leafSibling leaf;
           if recordIndex \<ge> numberOfRecords then
             do {
               rp \<leftarrow> SetNode rp i leafSibling;
               rp \<leftarrow> SetIndex rp i (recordIndex - numberOfRecords);
               rp \<leftarrow> SetIndex rp (i - 1) (leafIndex + 1);
               Some (bpt, rp, i)
             }
           else Some (bpt, rp, i)
         }
       else Some (bpt, rp, i)
     }"

definition trySplitNonLeaf ::
  "('k, 'v) BPTree \<Rightarrow> recordPath \<Rightarrow> int \<Rightarrow> (('k, 'v) BPTree \<times> recordPath \<times> int) option" where
  "trySplitNonLeaf bpt rp i =
     do {
       c \<leftarrow> index rp i;
       let nonLeaf = rpcNode c;
       let nonLeafChildIndex = rpcIndex c;
       cs \<leftarrow> nonLeafChildren bpt nonLeaf;
       if nodeChildren_IsFull cs (maxDegree bpt) then
         do {
           let numberOfNonLeafChildren = quot (maxDegree bpt - 1) 2;
           let (bpt, rp, i) =
             (if i = 0 then
                (let bpt' = increaseHeight bpt in (bpt', Prepend rp (root bpt') 0, i + 1))
              else (bpt, rp, i));
           pc \<leftarrow> index rp (i - 1);
           let nonLeafParent = rpcNode pc;
           let nonLeafIndex = rpcIndex pc;
           (bpt, nonLeafSibling) \<leftarrow>
             nonLeaf_Split bpt nonLeaf numberOfNonLeafChildren nonLeafParent (nonLeafIndex + 1);
           if nonLeafChildIndex \<ge> numberOfNonLeafChildren then
             do {
               rp \<leftarrow> SetNode rp i nonLeafSibling;
               rp \<leftarrow> SetIndex rp i (nonLeafChildIndex - numberOfNonLeafChildren);
               rp \<leftarrow> SetIndex rp (i - 1) (nonLeafIndex + 1);
               Some (bpt, rp, i)
             }
           else Some (bpt, rp, i)
         }
       else Some (bpt, rp, i)
     }"

text \<open>\<open>if len(parent.Children) == 1 { bpt.decreaseHeight(); recordPath.Unprepend(); *i-- }\<close>\<close>

definition shrinkIfSingle ::
  "('k, 'v) BPTree \<Rightarrow> recordPath \<Rightarrow> int \<Rightarrow> ptr \<Rightarrow> (('k, 'v) BPTree \<times> recordPath \<times> int) option" where
  "shrinkIfSingle bpt rp i parent =
     do {
       pcs \<leftarrow> nonLeafChildren bpt parent;
       if length pcs = 1 then
         do {
           bpt \<leftarrow> decreaseHeight bpt;
           rp \<leftarrow> Unprepend rp;
           Some (bpt, rp, i - 1)
         }
       else Some (bpt, rp, i)
     }"

definition tryMergeLeaf ::
  "('k, 'v) BPTree \<Rightarrow> recordPath \<Rightarrow> int \<Rightarrow> (('k, 'v) BPTree \<times> recordPath \<times> int) option" where
  "tryMergeLeaf bpt rp i =
     do {
       c \<leftarrow> index rp i;
       let leaf1 = rpcNode c;
       let recordIndex = rpcIndex c;
       rs \<leftarrow> leafRecords bpt leaf1;
       if records_IsSparse rs (maxDegree bpt) then
         do {
           pc \<leftarrow> index rp (i - 1);
           let leafParent = rpcNode pc;
           let leafIndex = rpcIndex pc;
           pcs \<leftarrow> nonLeafChildren bpt leafParent;
           (bpt, rp) \<leftarrow>
             (if leafIndex < int (length pcs) - 1 then
                do {
                  sc \<leftarrow> index pcs (leafIndex + 1);
                  srs \<leftarrow> leafRecords bpt (CValue sc);
                  if records_IsSparse srs (maxDegree bpt) then
                    do {
                      (bpt, sibling) \<leftarrow> leaf_MergeRight bpt leaf1 leafParent leafIndex;
                      bpt \<leftarrow> RemoveLeaf bpt sibling;
                      Some (bpt, rp)
                    }
                  else
                    do {
                      bpt \<leftarrow> StealRecordRight bpt leaf1 leafParent leafIndex;
                      Some (bpt, rp)
                    }
                }
              else
                do {
                  sc \<leftarrow> index pcs (leafIndex - 1);
                  srs \<leftarrow> leafRecords bpt (CValue sc);
                  if records_IsSparse srs (maxDegree bpt) then
                    do {
                      let numberOfRecords = int (length rs);
                      (bpt, leafSibling) \<leftarrow> leaf_MergeToLeft bpt leaf1 leafParent leafIndex;
                      bpt \<leftarrow> RemoveLeaf bpt leaf1;
                      rp \<leftarrow> SetNode rp i leafSibling;
                      srs' \<leftarrow> leafRecords bpt leafSibling;
                      rp \<leftarrow> SetIndex rp i (int (length srs') - (numberOfRecords - recordIndex));
                      rp \<leftarrow> SetIndex rp (i - 1) (leafIndex - 1);
                      Some (bpt, rp)
                    }
                  else
                    do {
                      bpt \<leftarrow> StealRecordLeft bpt leaf1 leafParent leafIndex;
                      rp \<leftarrow> SetIndex rp i (recordIndex + 1);
                      Some (bpt, rp)
                    }
                });
           shrinkIfSingle bpt rp i leafParent
         }
       else Some (bpt, rp, i)
     }"

definition tryMergeNonLeaf ::
  "('k, 'v) BPTree \<Rightarrow> recordPath \<Rightarrow> int \<Rightarrow> (('k, 'v) BPTree \<times> recordPath \<times> int) option" where
  "tryMergeNonLeaf bpt rp i =
     do {
       c \<leftarrow> index rp i;
       let nonLeaf1 = rpcNode c;
       let nonLeafChildIndex = rpcIndex c;
       cs \<leftarrow> nonLeafChildren bpt nonLeaf1;
       if nodeChildren_IsSparse cs (maxDegree bpt) then
         do {
           pc \<leftarrow> index rp (i - 1);
           let nonLeafParent = rpcNode pc;
           let nonLeafIndex = rpcIndex pc;
           pcs \<leftarrow> nonLeafChildren bpt nonLeafParent;
           (bpt, rp) \<leftarrow>
             (if nonLeafIndex < int (length pcs) - 1 then
                do {
                  sc \<leftarrow> index pcs (nonLeafIndex + 1);
                  scs \<leftarrow> nonLeafChildren bpt (CValue sc);
                  if nodeChildren_IsSparse scs (maxDegree bpt) then
                    do {
                      (bpt, sibling) \<leftarrow> nonLeaf_MergeRight bpt nonLeaf1 nonLeafParent nonLeafIndex;
                      Some (bpt, rp)
                    }
                  else
                    do {
                      bpt \<leftarrow> StealChildRight bpt nonLeaf1 nonLeafParent nonLeafIndex;
                      Some (bpt, rp)
                    }
                }
              else
                do {
                  sc \<leftarrow> index pcs (nonLeafIndex - 1);
                  scs \<leftarrow> nonLeafChildren bpt (CValue sc);
                  if nodeChildren_IsSparse scs (maxDegree bpt) then
                    do {
                      let numberOfNonLeafChildren = int (length cs);
                      (bpt, nonLeafSibling) \<leftarrow>
                        nonLeaf_MergeToLeft bpt nonLeaf1 nonLeafParent nonLeafIndex;
                      rp \<leftarrow> SetNode rp i nonLeafSibling;
                      scs' \<leftarrow> nonLeafChildren bpt nonLeafSibling;
                      rp \<leftarrow> SetIndex rp i
                             (int (length scs') - (numberOfNonLeafChildren - nonLeafChildIndex));
                      rp \<leftarrow> SetIndex rp (i - 1) (nonLeafIndex - 1);
                      Some (bpt, rp)
                    }
                  else
                    do {
                      bpt \<leftarrow> StealChildLeft bpt nonLeaf1 nonLeafParent nonLeafIndex;
                      rp \<leftarrow> SetIndex rp i (nonLeafChildIndex + 1);
                      Some (bpt, rp)
                    }
                });
           shrinkIfSingle bpt rp i nonLeafParent
         }
       else Some (bpt, rp, i)
     }"

text \<open>
  The loops of \<open>insertRecord\<close> (from \<open>i = 0\<close>) and \<open>removeRecord\<close> (from \<open>i = 1\<close>):
  \<open>for ; ; i++ { n := len(recordPath); if i >= n { break }; ... }\<close>.
\<close>

partial_function (option) insertRecord_loop ::
  "('k, 'v) BPTree \<Rightarrow> recordPath \<Rightarrow> int \<Rightarrow> (('k, 'v) BPTree \<times> recordPath) option" where
  "insertRecord_loop bpt rp i =
     (let n = int (length rp) in
      if i \<ge> n then Some (bpt, rp)
      else
        do {
          (bpt, rp, i) \<leftarrow> (if i = n - 1 then trySplitLeaf bpt rp i else trySplitNonLeaf bpt rp i);
          insertRecord_loop bpt rp (i + 1)
        })"

declare insertRecord_loop.simps [code]

definition insertRecord ::
  "('k, 'v) BPTree \<Rightarrow> ('k, 'v) rcd \<Rightarrow> recordPath \<Rightarrow> ('k, 'v) BPTree option" where
  "insertRecord bpt record' rp =
     do {
       (bpt, rp) \<leftarrow> insertRecord_loop bpt rp 0;
       (leaf, recordIndex) \<leftarrow> LocateRecord_path rp;
       rs \<leftarrow> leafRecords bpt leaf;
       rs' \<leftarrow> InsertRecord rs record' recordIndex;
       bpt \<leftarrow> setRecords bpt leaf rs';
       trySyncKey bpt rp
     }"

partial_function (option) removeRecord_loop ::
  "('k, 'v) BPTree \<Rightarrow> recordPath \<Rightarrow> int \<Rightarrow> (('k, 'v) BPTree \<times> recordPath) option" where
  "removeRecord_loop bpt rp i =
     (let n = int (length rp) in
      if i \<ge> n then Some (bpt, rp)
      else
        do {
          (bpt, rp, i) \<leftarrow> (if i = n - 1 then tryMergeLeaf bpt rp i else tryMergeNonLeaf bpt rp i);
          removeRecord_loop bpt rp (i + 1)
        })"

declare removeRecord_loop.simps [code]

definition removeRecord :: "('k, 'v) BPTree \<Rightarrow> recordPath \<Rightarrow> ('k, 'v) BPTree option" where
  "removeRecord bpt rp =
     do {
       (bpt, rp) \<leftarrow> removeRecord_loop bpt rp 1;
       (leaf, recordIndex) \<leftarrow> LocateRecord_path rp;
       rs \<leftarrow> leafRecords bpt leaf;
       (r, rs') \<leftarrow> RemoveRecord rs recordIndex;
       bpt \<leftarrow> setRecords bpt leaf rs';
       trySyncKey bpt rp
     }"

subsection \<open>The public point operations\<close>

text \<open>
  Each operation returns the pair of the Go function together with the new state; the first
  component of the pair is \<open>None\<close> where the Go function returns the nil interface.
\<close>

text \<open>\<open>leaf, recordIndex := recordPath.LocateRecord(); leaf.Records[recordIndex]\<close>\<close>

definition locatedRecord :: "('k, 'v) BPTree \<Rightarrow> recordPath \<Rightarrow> (ptr \<times> int \<times> ('k, 'v) rcd list \<times> ('k, 'v) rcd) option" where
  "locatedRecord bpt rp =
     do {
       (leaf, recordIndex) \<leftarrow> LocateRecord_path rp;
       rs \<leftarrow> leafRecords bpt leaf;
       r \<leftarrow> index rs recordIndex;
       Some (leaf, recordIndex, rs, r)
     }"

definition AddRecord ::
  "('k, 'v) BPTree \<Rightarrow> 'k key \<Rightarrow> 'v \<Rightarrow> (('v option \<times> bool) \<times> ('k, 'v) BPTree) option" where
  "AddRecord bpt key' value' =
     do {
       (rp, ok) \<leftarrow> findRecord bpt key';
       if ok then
         do { (leaf, recordIndex, rs, r) \<leftarrow> locatedRecord bpt rp; Some ((Some (Value r), False), bpt) }
       else
         do { bpt \<leftarrow> insertRecord bpt (Rcd key' value') rp; Some ((None, True), bpt) }
     }"

definition UpdateRecord ::
  "('k, 'v) BPTree \<Rightarrow> 'k key \<Rightarrow> 'v \<Rightarrow> (('v option \<times> bool) \<times> ('k, 'v) BPTree) option" where
  "UpdateRecord bpt key' value' =
     do {
       (rp, ok) \<leftarrow> findRecord bpt key';
       if ok then
         do {
           (leaf, recordIndex, rs, r) \<leftarrow> locatedRecord bpt rp;
           rs' \<leftarrow> assign rs recordIndex (Rcd (Key r) value');
           bpt \<leftarrow> setRecords bpt leaf rs';
           Some ((Some (Value r), True), bpt)
         }
       else Some ((None, False), bpt)
     }"

definition AddOrUpdateRecord ::
  "('k, 'v) BPTree \<Rightarrow> 'k key \<Rightarrow> 'v \<Rightarrow> (('v option \<times> bool) \<times> ('k, 'v) BPTree) option" where
  "AddOrUpdateRecord bpt key' value' =
     do {
       (rp, ok) \<leftarrow> findRecord bpt key';
       if ok then
         do {
           (leaf, recordIndex, rs, r) \<leftarrow> locatedRecord bpt rp;
           rs' \<leftarrow> assign rs recordIndex (Rcd (Key r) value');
           bpt \<leftarrow> setRecords bpt leaf rs';
           Some ((Some (Value r), False), bpt)
         }
       else
         do { bpt \<leftarrow> insertRecord bpt (Rcd key' value') rp; Some ((None, True), bpt) }
     }"

definition DeleteRecord ::
  "('k, 'v) BPTree \<Rightarrow> 'k key \<Rightarrow> (('v option \<times> bool) \<times> ('k, 'v) BPTree) option" where
  "DeleteRecord bpt key' =
     do {
       (rp, ok) \<leftarrow> findRecord bpt key';
       if ok then
         do {
           (leaf, recordIndex, rs, r) \<leftarrow> locatedRecord bpt rp;
           bpt \<leftarrow> removeRecord bpt rp;
           Some ((Some (Value r), True), bpt)
         }
       else Some ((None, False), bpt)
     }"

definition HasRecord :: "('k, 'v) BPTree \<Rightarrow> 'k key \<Rightarrow> ('v option \<times> bool) option" where
  "HasRecord bpt key' =
     do {
       (rp, ok) \<leftarrow> findRecord bpt key';
       if ok then
         do { (leaf, recordIndex, rs, r) \<leftarrow> locatedRecord bpt rp; Some (Some (Value r), True) }
       else Some (None, False)
     }"

subsection \<open>Range search\<close>

definition isKeyMinMax :: "'k key \<Rightarrow> bool" where
  "isKeyMinMax k = (case k of KMinMax x \<Rightarrow> True | _ \<Rightarrow> False)"

text \<open>\<open>ok1 && ok2 && x == y\<close> for the two type assertions to \<open>keyMinMax\<close>.\<close>

definition sameKeyMinMax :: "'k key \<Rightarrow> 'k key \<Rightarrow> bool" where
  "sameKeyMinMax a b = (case (a, b) of (KMinMax x, KMinMax y) \<Rightarrow> x = y | _ \<Rightarrow> False)"

text \<open>
  The result of \<open>findAndLocateRecords\<close> is the five-tuple
  \<open>(minLeaf, minRecordIndex, maxLeaf, maxRecordIndex, ok)\<close>.
\<close>

definition findAndLocateRecords ::
  "('k, 'v) BPTree \<Rightarrow> 'k key \<Rightarrow> 'k key \<Rightarrow> (ptr \<times> int \<times> ptr \<times> int \<times> bool) option" where
  "findAndLocateRecords bpt minKey maxKey =
     (let ok1 = isKeyMinMax minKey; ok2 = isKeyMinMax maxKey in
      do {
        d \<leftarrow> (if ok1 \<or> ok2 then Some (if sameKeyMinMax minKey maxKey then 0 else - 1)
              else keyComparer bpt minKey maxKey);
        if \<not> (ok1 \<or> ok2) \<and> d > 0 then Some (0, 0, 0, 0, False)
        else
          do {
            (minRecordPath, ok3) \<leftarrow> findRecord bpt minKey;
            (minLeaf, minRecordIndex) \<leftarrow> LocateRecord_path minRecordPath;
            mrs \<leftarrow> (if \<not> ok3 then leafRecords bpt minLeaf else Some []);
            if \<not> ok3 \<and> minRecordIndex = int (length mrs) \<and> minLeaf = tail bpt
            then Some (0, 0, 0, 0, False)
            else
              do {
                (minLeaf, minRecordIndex) \<leftarrow>
                  (if \<not> ok3 \<and> minRecordIndex = int (length mrs)
                   then do { n \<leftarrow> leafNext bpt minLeaf; Some (n, 0) }
                   else Some (minLeaf, minRecordIndex));
                if d = 0 then Some (minLeaf, minRecordIndex, minLeaf, minRecordIndex, True)
                else
                  do {
                    (minKey, d) \<leftarrow>
                      (if ok1 \<or> \<not> ok3 then
                         do {
                           rs \<leftarrow> leafRecords bpt minLeaf;
                           r \<leftarrow> index rs minRecordIndex;
                           if \<not> ok2 then
                             do { d \<leftarrow> keyComparer bpt (Key r) maxKey; Some (Key r, d) }
                           else Some (Key r, d)
                         }
                       else Some (minKey, d));
                    if (ok1 \<or> \<not> ok3) \<and> \<not> ok2 \<and> d = 0
                    then Some (minLeaf, minRecordIndex, minLeaf, minRecordIndex, True)
                    else if (ok1 \<or> \<not> ok3) \<and> \<not> ok2 \<and> d > 0 then Some (0, 0, 0, 0, False)
                    else
                      do {
                        (maxRecordPath, ok4) \<leftarrow> findRecord bpt maxKey;
                        (maxLeaf, maxRecordIndex) \<leftarrow> LocateRecord_path maxRecordPath;
                        let maxRecordIndex = (if \<not> ok4 then maxRecordIndex - 1 else maxRecordIndex);
                        if ok2 \<or> \<not> ok4 then
                          do {
                            rs \<leftarrow> leafRecords bpt maxLeaf;
                            r \<leftarrow> index rs maxRecordIndex;
                            d \<leftarrow> keyComparer bpt minKey (Key r);
                            if d = 0 then Some (minLeaf, minRecordIndex, minLeaf, minRecordIndex, True)
                            else if d > 0 then Some (0, 0, 0, 0, False)
                            else Some (minLeaf, minRecordIndex, maxLeaf, maxRecordIndex, True)
                          }
                        else Some (minLeaf, minRecordIndex, maxLeaf, maxRecordIndex, True)
                      }
                  }
              }
          }
      })"

subsection \<open>Iterators\<close>

record iterator =
  currentLeaf :: ptr
  currentRecordIndex :: int
  lastLeaf :: ptr
  lastRecordIndex :: int
  isAtEnd :: bool

definition iterator_init :: "ptr \<Rightarrow> int \<Rightarrow> ptr \<Rightarrow> int \<Rightarrow> bool \<Rightarrow> iterator" where
  "iterator_init firstLeaf firstRecordIndex lastLeaf' lastRecordIndex' isAtEnd' =
     \<lparr>currentLeaf = firstLeaf, currentRecordIndex = firstRecordIndex, lastLeaf = lastLeaf',
      lastRecordIndex = lastRecordIndex', isAtEnd = isAtEnd'\<rparr>"

definition IsAtEnd :: "iterator \<Rightarrow> bool" where
  "IsAtEnd it = isAtEnd it"

text \<open>\<open>Record\<close> panics with "end of iteration" on an iterator that is at its end.\<close>

definition Record :: "('k, 'v) BPTree \<Rightarrow> iterator \<Rightarrow> ('k key \<times> 'v) option" where
  "Record bpt it =
     (if isAtEnd it then None
      else
        do {
          rs \<leftarrow> leafRecords bpt (currentLeaf it);
          r \<leftarrow> index rs (currentRecordIndex it);
          Some (Key r, Value r)
        })"

definition iterator_advance :: "iterator \<Rightarrow> iterator" where
  "iterator_advance it =
     (if currentLeaf it = lastLeaf it \<and> currentRecordIndex it = lastRecordIndex it
      then \<lparr>currentLeaf = 0, currentRecordIndex = 0, lastLeaf = 0, lastRecordIndex = 0,
            isAtEnd = True\<rparr>
      else it)"

definition forward_Advance :: "('k, 'v) BPTree \<Rightarrow> iterator \<Rightarrow> iterator option" where
  "forward_Advance bpt fi =
     (let fi = iterator_advance fi in
      if isAtEnd fi then Some fi
      else
        do {
          rs \<leftarrow> leafRecords bpt (currentLeaf fi);
          if currentRecordIndex fi < int (length rs) - 1
          then Some (fi\<lparr>currentRecordIndex := currentRecordIndex fi + 1\<rparr>)
          else
            do {
              n \<leftarrow> leafNext bpt (currentLeaf fi);
              Some (fi\<lparr>currentLeaf := n, currentRecordIndex := 0\<rparr>)
            }
        })"

definition backward_Advance :: "('k, 'v) BPTree \<Rightarrow> iterator \<Rightarrow> iterator option" where
  "backward_Advance bpt bi =
     (let bi = iterator_advance bi in
      if isAtEnd bi then Some bi
      else if currentRecordIndex bi \<ge> 1
      then Some (bi\<lparr>currentRecordIndex := currentRecordIndex bi - 1\<rparr>)
      else
        do {
          p \<leftarrow> leafPrev bpt (currentLeaf bi);
          rs \<leftarrow> leafRecords bpt p;
          Some (bi\<lparr>currentLeaf := p, currentRecordIndex := int (length rs) - 1\<rparr>)
        })"

definition SearchForward :: "('k, 'v) BPTree \<Rightarrow> 'k key \<Rightarrow> 'k key \<Rightarrow> iterator option" where
  "SearchForward bpt maxKey minKey =
     do {
       (minLeaf, minRecordIndex, maxLeaf, maxRecordIndex, ok) \<leftarrow>
         findAndLocateRecords bpt maxKey minKey;
       Some (iterator_init minLeaf minRecordIndex maxLeaf maxRecordIndex (\<not> ok))
     }"

definition SearchBackward :: "('k, 'v) BPTree \<Rightarrow> 'k key \<Rightarrow> 'k key \<Rightarrow> iterator option" where
  "SearchBackward bpt maxKey minKey =
     do {
       (minLeaf, minRecordIndex, maxLeaf, maxRecordIndex, ok) \<leftarrow>
         findAndLocateRecords bpt maxKey minKey;
       Some (iterator_init maxLeaf maxRecordIndex minLeaf minRecordIndex (\<not> ok))
     }"

text \<open>
  What a caller enumerates with
  \<open>for it := ...; !it.IsAtEnd(); it.Advance() { k, v := it.Record(); ... }\<close>:
  the list of the pairs read, \<open>None\<close> if a call panics or the loop does not end.
\<close>

partial_function (option) enumerate_forward ::
  "('k, 'v) BPTree \<Rightarrow> iterator \<Rightarrow> ('k key \<times> 'v) list option" where
  "enumerate_forward bpt it =
     (if IsAtEnd it then Some []
      else
        do {
          kv \<leftarrow> Record bpt it;
          it \<leftarrow> forward_Advance bpt it;
          rest \<leftarrow> enumerate_forward bpt it;
          Some (kv # rest)
        })"

declare enumerate_forward.simps [code]

partial_function (option) enumerate_backward ::
  "('k, 'v) BPTree \<Rightarrow> iterator \<Rightarrow> ('k key \<times> 'v) list option" where
  "enumerate_backward bpt it =
     (if IsAtEnd it then Some []
      else
        do {
          kv \<leftarrow> Record bpt it;
          it \<leftarrow> backward_Advance bpt it;
          rest \<leftarrow> enumerate_backward bpt it;
          Some (kv # rest)
        })"

declare enumerate_backward.simps [code]

section \<open>The engine of the second tree file\<close>

text \<open>
  The second copy of the tree engine in the sources differs from \<open>bptree.go\<close> in the bound
  of \<open>Init\<close>, in \<open>nodeChildren.IsSparse\<close> and in the way a full node is relieved before an
  insertion (\<open>ensureNotFullLeaf\<close>, \<open>ensureNotFullNonLeaf\<close>). Its definitions carry the
  suffix \<open>2\<close>; the functions whose text is the same in both files are shared.
\<close>

definition Init2 :: "int \<Rightarrow> 'k KeyComparer \<Rightarrow> ('k, 'v) BPTree option" where
  "Init2 maxDegree' keyComparer' =
     (if maxDegree' < 4 then None
      else
        (let bpt = \<lparr>maxDegree = maxDegree', keyComparer = keyComparer', tail = 0, head = 0,
                     root = 0, height = 0, heap = []\<rparr>;
             (bpt, root') = alloc bpt (Leaf [] 0 0)
         in do {
           bpt \<leftarrow> leafList_Init bpt root';
           Some (bpt\<lparr>root := root', height := 1\<rparr>)
         }))"

definition nodeChildren_IsSparse2 :: "'k nodeChild list \<Rightarrow> int \<Rightarrow> bool" where
  "nodeChildren_IsSparse2 nc maxDegree' \<longleftrightarrow> int (length nc) * 2 \<le> maxDegree'"

definition leaf_ShiftToLeft2 :: "('k, 'v) BPTree \<Rightarrow> ptr \<Rightarrow> ptr \<Rightarrow> int \<Rightarrow> ptr \<Rightarrow> ('k, 'v) BPTree option" where
  "leaf_ShiftToLeft2 bpt l parent index' leftSibling =
     do {
       rs \<leftarrow> leafRecords bpt l;
       (record', rs') \<leftarrow> RemoveRecord rs 0;
       bpt \<leftarrow> setRecords bpt l rs';
       r0 \<leftarrow> index rs' 0;
       bpt \<leftarrow> setChildKey bpt parent index' (Key r0);
       lrs \<leftarrow> leafRecords bpt leftSibling;
       lrs' \<leftarrow> InsertRecord lrs record' (int (length lrs));
       setRecords bpt leftSibling lrs'
     }"

definition leaf_ShiftToRight2 :: "('k, 'v) BPTree \<Rightarrow> ptr \<Rightarrow> ptr \<Rightarrow> int \<Rightarrow> ptr \<Rightarrow> ('k, 'v) BPTree option" where
  "leaf_ShiftToRight2 bpt l parent index' rightSibling =
     do {
       rs \<leftarrow> leafRecords bpt l;
       (record', rs') \<leftarrow> RemoveRecord rs (int (length rs) - 1);
       bpt \<leftarrow> setRecords bpt l rs';
       rrs \<leftarrow> leafRecords bpt rightSibling;
       rrs' \<leftarrow> InsertRecord rrs record' 0;
       bpt \<leftarrow> setRecords bpt rightSibling rrs';
       setChildKey bpt parent (index' + 1) (Key record')
     }"

definition leaf_Split2 :: "('k, 'v) BPTree \<Rightarrow> ptr \<Rightarrow> int \<Rightarrow> ptr \<Rightarrow> int \<Rightarrow> (('k, 'v) BPTree \<times> ptr) option" where
  "leaf_Split2 bpt l numberOfRecords parent index' =
     do {
       rs \<leftarrow> leafRecords bpt l;
       srs \<leftarrow> slice_from rs numberOfRecords;
       rs' \<leftarrow> slice_truncate rs numberOfRecords;
       bpt \<leftarrow> setRecords bpt l rs';
       r0 \<leftarrow> index srs 0;
       let (bpt, newSibling) = alloc bpt (Leaf srs 0 0);
       cs \<leftarrow> nonLeafChildren bpt parent;
       cs' \<leftarrow> InsertNodeChild cs (NodeChild (Key r0) newSibling) (index' + 1);
       bpt \<leftarrow> setChildren bpt parent cs';
       Some (bpt, newSibling)
     }"

definition nonLeaf_Split2 :: "('k, 'v) BPTree \<Rightarrow> ptr \<Rightarrow> int \<Rightarrow> ptr \<Rightarrow> int \<Rightarrow> (('k, 'v) BPTree \<times> ptr) option" where
  "nonLeaf_Split2 bpt nl numberOfChildren parent index' =
     do {
       cs \<leftarrow> nonLeafChildren bpt nl;
       scs \<leftarrow> slice_from cs numberOfChildren;
       c0 \<leftarrow> index scs 0;
       let key' = CKey c0;
       scs \<leftarrow> assign scs 0 (NodeChild KNil (CValue c0));
       cs' \<leftarrow> slice_truncate cs numberOfChildren;
       bpt \<leftarrow> setChildren bpt nl cs';
       let (bpt, newSibling) = alloc bpt (NonLeaf scs);
       pcs \<leftarrow> nonLeafChildren bpt parent;
       pcs' \<leftarrow> InsertNodeChild pcs (NodeChild key' newSibling) (index' + 1);
       bpt \<leftarrow> setChildren bpt parent pcs';
       Some (bpt, newSibling)
     }"

definition nonLeaf_ShiftToLeft2 :: "('k, 'v) BPTree \<Rightarrow> ptr \<Rightarrow> ptr \<Rightarrow> int \<Rightarrow> ptr \<Rightarrow> ('k, 'v) BPTree option" where
  "nonLeaf_ShiftToLeft2 bpt nl parent index' leftSibling =
     do {
       cs \<leftarrow> nonLeafChildren bpt nl;
       (child, cs') \<leftarrow> RemoveNodeChild cs 0;
       bpt \<leftarrow> setChildren bpt nl cs';
       pcs \<leftarrow> nonLeafChildren bpt parent;
       pc \<leftarrow> index pcs index';
       let child = NodeChild (CKey pc) (CValue child);
       cs \<leftarrow> nonLeafChildren bpt nl;
       c0 \<leftarrow> index cs 0;
       bpt \<leftarrow> setChildKey bpt parent index' (CKey c0);
       bpt \<leftarrow> setChildKey bpt nl 0 KNil;
       lcs \<leftarrow> nonLeafChildren bpt leftSibling;
       lcs' \<leftarrow> InsertNodeChild lcs child (int (length lcs));
       setChildren bpt leftSibling lcs'
     }"

definition nonLeaf_ShiftToRight2 :: "('k, 'v) BPTree \<Rightarrow> ptr \<Rightarrow> ptr \<Rightarrow> int \<Rightarrow> ptr \<Rightarrow> ('k, 'v) BPTree option" where
  "nonLeaf_ShiftToRight2 bpt nl parent index' rightSibling =
     do {
       cs \<leftarrow> nonLeafChildren bpt nl;
       (child, cs') \<leftarrow> RemoveNodeChild cs (int (length cs) - 1);
       bpt \<leftarrow> setChildren bpt nl cs';
       pcs \<leftarrow> nonLeafChildren bpt parent;
       pc \<leftarrow> index pcs (index' + 1);
       bpt \<leftarrow> setChildKey bpt rightSibling 0 (CKey pc);
       bpt \<leftarrow> setChildKey bpt parent (index' + 1) (CKey child);
       let child = NodeChild KNil (CValue child);
       rcs \<leftarrow> nonLeafChildren bpt rightSibling;
       rcs' \<leftarrow> InsertNodeChild rcs child 0;
       setChildren bpt rightSibling rcs'
     }"

text \<open>
  \<open>ensureNotFullNonLeaf\<close> calls itself on the parent before it splits; a call that does
  not return is the value \<open>None\<close>.
\<close>

partial_function (option) ensureNotFullNonLeaf2 ::
  "('k, 'v) BPTree \<Rightarrow> recordPath \<Rightarrow> int \<Rightarrow> (('k, 'v) BPTree \<times> recordPath \<times> int) option" where
  "ensureNotFullNonLeaf2 bpt rp i =
     do {
       c \<leftarrow> index rp i;
       let nonLeaf1 = rpcNode c;
       cs \<leftarrow> nonLeafChildren bpt nonLeaf1;
       if \<not> nodeChildren_IsFull cs (maxDegree bpt) then Some (bpt, rp, i)
       else
         do {
           let nonLeafChildIndex = rpcIndex c;
           let numberOfNonLeafChildren = 1 + quot (maxDegree bpt - 1) 2;
           let (bpt, rp, i) =
             (if i = 0 then
                (let bpt' = increaseHeight bpt in (bpt', Prepend rp (root bpt') 0, 1))
              else (bpt, rp, i));
           pc \<leftarrow> index rp (i - 1);
           let nonLeafParent = rpcNode pc;
           let nonLeafIndex = rpcIndex pc;
           pcs \<leftarrow> nonLeafChildren bpt nonLeafParent;
           rightFull \<leftarrow>
             (if nonLeafIndex < int (length pcs) - 1 then
                do {
                  sc \<leftarrow> index pcs (nonLeafIndex + 1);
                  scs \<leftarrow> nonLeafChildren bpt (CValue sc);
                  Some (nodeChildren_IsFull scs (maxDegree bpt))
                }
              else Some True);
           if \<not> rightFull then
             do {
               sc \<leftarrow> index pcs (nonLeafIndex + 1);
               let nonLeafRightSibling = CValue sc;
               bpt \<leftarrow> nonLeaf_ShiftToRight2 bpt nonLeaf1 nonLeafParent nonLeafIndex nonLeafRightSibling;
               cs' \<leftarrow> nonLeafChildren bpt nonLeaf1;
               if nonLeafChildIndex = int (length cs') then
                 do {
                   rp \<leftarrow> SetNode rp i nonLeafRightSibling;
                   rp \<leftarrow> SetIndex rp i 0;
                   rp \<leftarrow> SetIndex rp (i - 1) (nonLeafIndex + 1);
                   Some (bpt, rp, i)
                 }
               else Some (bpt, rp, i)
             }
           else
             do {
               leftFull \<leftarrow>
                 (if nonLeafIndex \<ge> 1 then
                    do {
                      sc \<leftarrow> index pcs (nonLeafIndex - 1);
                      scs \<leftarrow> nonLeafChildren bpt (CValue sc);
                      Some (nodeChildren_IsFull scs (maxDegree bpt))
                    }
                  else Some True);
               if \<not> leftFull then
                 do {
                   sc \<leftarrow> index pcs (nonLeafIndex - 1);
                   let nonLeafLeftSibling = CValue sc;
                   bpt \<leftarrow> nonLeaf_ShiftToLeft2 bpt nonLeaf1 nonLeafParent nonLeafIndex nonLeafLeftSibling;
                   if nonLeafChildIndex = 0 then
                     do {
                       rp \<leftarrow> SetNode rp i nonLeafLeftSibling;
                       lcs \<leftarrow> nonLeafChildren bpt nonLeafLeftSibling;
                       rp \<leftarrow> SetIndex rp i (int (length lcs) - 1);
                       rp \<leftarrow> SetIndex rp (i - 1) (nonLeafIndex - 1);
                       Some (bpt, rp, i)
                     }
                   else
                     do { rp \<leftarrow> SetIndex rp i (nonLeafChildIndex - 1); Some (bpt, rp, i) }
                 }
               else
                 do {
                   (bpt, rp, i') \<leftarrow> ensureNotFullNonLeaf2 bpt rp (i - 1);
                   let i = i' + 1;
                   pc \<leftarrow> index rp (i - 1);
                   let nonLeafParent = rpcNode pc;
                   let nonLeafIndex = rpcIndex pc;
                   (bpt, nonLeafNewSibling) \<leftarrow>
                     nonLeaf_Split2 bpt nonLeaf1 numberOfNonLeafChildren nonLeafParent nonLeafIndex;
                   if nonLeafChildIndex \<ge> numberOfNonLeafChildren then
                     do {
                       rp \<leftarrow> SetNode rp i nonLeafNewSibling;
                       rp \<leftarrow> SetIndex rp i (nonLeafChildIndex - numberOfNonLeafChildren);
                       rp \<leftarrow> SetIndex rp (i - 1) (nonLeafIndex + 1);
                       Some (bpt, rp, i)
                     }
                   else Some (bpt, rp, i)
                 }
             }
         }
     }"

declare ensureNotFullNonLeaf2.simps [code]

definition ensureNotFullLeaf2 ::
  "('k, 'v) BPTree \<Rightarrow> recordPath \<Rightarrow> (('k, 'v) BPTree \<times> recordPath) option" where
  "ensureNotFullLeaf2 bpt rp =
     (let i = int (length rp) - 1 in
      do {
        c \<leftarrow> index rp i;
        let leaf1 = rpcNode c;
        rs \<leftarrow> leafRecords bpt leaf1;
        if \<not> records_IsFull rs (maxDegree bpt) then Some (bpt, rp)
        else
          do {
            let recordIndex = rpcIndex c;
            let numberOfRecords = quot (maxDegree bpt) 2;
            let (bpt, rp, i) =
              (if i = 0 then
                 (let bpt' = increaseHeight bpt in (bpt', Prepend rp (root bpt') 0, 1))
               else (bpt, rp, i));
            pc \<leftarrow> index rp (i - 1);
            let leafParent = rpcNode pc;
            let leafIndex = rpcIndex pc;
            pcs \<leftarrow> nonLeafChildren bpt leafParent;
            rightFull \<leftarrow>
              (if leafIndex < int (length pcs) - 1 then
                 do {
                   sc \<leftarrow> index pcs (leafIndex + 1);
                   srs \<leftarrow> leafRecords bpt (CValue sc);
                   Some (records_IsFull srs (maxDegree bpt))
                 }
               else Some True);
            if \<not> rightFull then
              do {
                sc \<leftarrow> index pcs (leafIndex + 1);
                let leafRightSibling = CValue sc;
                if recordIndex = int (length rs) then
                  do {
                    rp \<leftarrow> SetNode rp i leafRightSibling;
                    rp \<leftarrow> SetIndex rp i 0;
                    rp \<leftarrow> SetIndex rp (i - 1) (leafIndex + 1);
                    Some (bpt, rp)
                  }
                else
                  do {
                    bpt \<leftarrow> leaf_ShiftToRight2 bpt leaf1 leafParent leafIndex leafRightSibling;
                    Some (bpt, rp)
                  }
              }
            else
              do {
                leftFull \<leftarrow>
                  (if leafIndex \<ge> 1 then
                     do {
                       sc \<leftarrow> index pcs (leafIndex - 1);
                       srs \<leftarrow> leafRecords bpt (CValue sc);
                       Some (records_IsFull srs (maxDegree bpt))
                     }
                   else Some True);
                if \<not> leftFull then
                  do {
                    sc \<leftarrow> index pcs (leafIndex - 1);
                    bpt \<leftarrow> leaf_ShiftToLeft2 bpt leaf1 leafParent leafIndex (CValue sc);
                    rp \<leftarrow> SetIndex rp i (recordIndex - 1);
                    Some (bpt, rp)
                  }
                else
                  do {
                    (bpt, rp, i') \<leftarrow> ensureNotFullNonLeaf2 bpt rp (i - 1);
                    let i = i' + 1;
                    pc \<leftarrow> index rp (i - 1);
                    let leafParent = rpcNode pc;
                    let leafIndex = rpcIndex pc;
                    (bpt, leafNewSibling) \<leftarrow> leaf_Split2 bpt leaf1 numberOfRecords leafParent leafIndex;
                    bpt \<leftarrow> InsertLeafAfter bpt leafNewSibling leaf1;
                    if recordIndex \<ge> numberOfRecords then
                      do {
                        rp \<leftarrow> SetNode rp i leafNewSibling;
                        rp \<leftarrow> SetIndex rp i (recordIndex - numberOfRecords);
                        rp \<leftarrow> SetIndex rp (i - 1) (leafIndex + 1);
                        Some (bpt, rp)
                      }
                    else Some (bpt, rp)
                  }
              }
          }
      })"

definition insertRecord2 ::
  "('k, 'v) BPTree \<Rightarrow> ('k, 'v) rcd \<Rightarrow> recordPath \<Rightarrow> ('k, 'v) BPTree option" where
  "insertRecord2 bpt record' rp =
     do {
       (bpt, rp) \<leftarrow> ensureNotFullLeaf2 bpt rp;
       (leaf, recordIndex) \<leftarrow> LocateRecord_path rp;
       rs \<leftarrow> leafRecords bpt leaf;
       rs' \<leftarrow> InsertRecord rs record' recordIndex;
       bpt \<leftarrow> setRecords bpt leaf rs';
       trySyncKey bpt rp
     }"

definition AddRecord2 ::
  "('k, 'v) BPTree \<Rightarrow> 'k key \<Rightarrow> 'v \<Rightarrow> (('v option \<times> bool) \<times> ('k, 'v) BPTree) option" where
  "AddRecord2 bpt key' value' =
     do {
       (rp, ok) \<leftarrow> findRecord bpt key';
       if ok then
         do { (leaf, recordIndex, rs, r) \<leftarrow> locatedRecord bpt rp; Some ((Some (Value r), False), bpt) }
       else
         do { bpt \<leftarrow> insertRecord2 bpt (Rcd key' value') rp; Some ((None, True), bpt) }
     }"

section \<open>Concrete inputs\<close>

text \<open>
  A comparer of the kind the README and the tests use: it asserts the type of both keys
  (and panics on a key of another type) and orders them.
\<close>

fun intKeyComparer :: "int KeyComparer" where
  "intKeyComparer (KUser a) (KUser b) = Some (if a < b then - 1 else if a = b then 0 else 1)"
| "intKeyComparer _ _ = None"

datatype ('k, 'v) operation =
    Add "'k key" 'v
  | Update "'k key" 'v
  | AddOrUpdate "'k key" 'v
  | Delete "'k key"

fun apply_operation ::
  "('k, 'v) BPTree \<Rightarrow> ('k, 'v) operation \<Rightarrow> (('v option \<times> bool) \<times> ('k, 'v) BPTree) option" where
  "apply_operation bpt (Add k v) = AddRecord bpt k v"
| "apply_operation bpt (Update k v) = UpdateRecord bpt k v"
| "apply_operation bpt (AddOrUpdate k v) = AddOrUpdateRecord bpt k v"
| "apply_operation bpt (Delete k) = DeleteRecord bpt k"

text \<open>The results of a sequence of operations, in order, and the final tree.\<close>

fun apply_operations ::
  "('k, 'v) BPTree \<Rightarrow> ('k, 'v) operation list \<Rightarrow> (('v option \<times> bool) list \<times> ('k, 'v) BPTree) option" where
  "apply_operations bpt [] = Some ([], bpt)"
| "apply_operations bpt (x # xs) =
     do {
       (r, bpt) \<leftarrow> apply_operation bpt x;
       (rs, bpt) \<leftarrow> apply_operations bpt xs;
       Some (r # rs, bpt)
     }"

text \<open>The same for \<open>AddRecord\<close> of the second engine.\<close>

fun add_all2 :: "('k, 'v) BPTree \<Rightarrow> ('k key \<times> 'v) list \<Rightarrow> ('k, 'v) BPTree option" where
  "add_all2 bpt [] = Some bpt"
| "add_all2 bpt ((k, v) # xs) = do { (r, bpt) \<leftarrow> AddRecord2 bpt k v; add_all2 bpt xs }"

text \<open>\<open>AddRecord(k, 10 k)\<close> for \<open>k = 1, ..., n\<close>.\<close>

definition adds_upto :: "nat \<Rightarrow> (int, int) operation list" where
  "adds_upto n = map (\<lambda>k. Add (KUser (int k)) (10 * int k)) [1..<Suc n]"

section \<open>Structural invariants\<close>

text \<open>
  The comparer contract: on the caller's keys the comparer returns, and the sign of its
  result is the order of the keys.
\<close>

definition comparer_ok :: "('k::linorder) KeyComparer \<Rightarrow> bool" where
  "comparer_ok c \<longleftrightarrow>
     (\<forall>a b. \<exists>d. c (KUser a) (KUser b) = Some d \<and> (d < 0 \<longleftrightarrow> a < b) \<and> (d = 0 \<longleftrightarrow> a = b))"

fun key_less :: "('k::linorder) key \<Rightarrow> 'k key \<Rightarrow> bool" where
  "key_less (KUser a) (KUser b) \<longleftrightarrow> a < b"
| "key_less _ _ \<longleftrightarrow> False"

fun is_user :: "'k key \<Rightarrow> bool" where
  "is_user (KUser a) \<longleftrightarrow> True"
| "is_user _ \<longleftrightarrow> False"

text \<open>
  A node \<open>n\<close> levels above the leaves: every path below it reaches a leaf after exactly
  \<open>n\<close> steps, and an internal node has at least one child.
\<close>

fun shape_ok :: "('k, 'v) BPTree \<Rightarrow> nat \<Rightarrow> ptr \<Rightarrow> bool" where
  "shape_ok bpt 0 p = (case deref bpt p of Some (Leaf rs pv nx) \<Rightarrow> True | _ \<Rightarrow> False)"
| "shape_ok bpt (Suc n) p =
     (case deref bpt p of
        Some (NonLeaf cs) \<Rightarrow> cs \<noteq> [] \<and> list_all (\<lambda>c. shape_ok bpt n (CValue c)) cs
      | _ \<Rightarrow> False)"

text \<open>The leaves below a node, from left to right.\<close>

fun leaves :: "('k, 'v) BPTree \<Rightarrow> nat \<Rightarrow> ptr \<Rightarrow> ptr list" where
  "leaves bpt 0 p = [p]"
| "leaves bpt (Suc n) p =
     (case deref bpt p of
        Some (NonLeaf cs) \<Rightarrow> concat (map (\<lambda>c. leaves bpt n (CValue c)) cs)
      | _ \<Rightarrow> [])"

definition recs :: "('k, 'v) BPTree \<Rightarrow> ptr \<Rightarrow> ('k, 'v) rcd list" where
  "recs bpt l = (case leafRecords bpt l of Some rs \<Rightarrow> rs | None \<Rightarrow> [])"

text \<open>The records of a list of leaves, in order.\<close>

definition records_of :: "('k, 'v) BPTree \<Rightarrow> ptr list \<Rightarrow> ('k, 'v) rcd list" where
  "records_of bpt ls = concat (map (recs bpt) ls)"

definition tree_level :: "('k, 'v) BPTree \<Rightarrow> nat" where
  "tree_level bpt = nat (height bpt - 1)"

definition tree_leaves :: "('k, 'v) BPTree \<Rightarrow> ptr list" where
  "tree_leaves bpt = leaves bpt (tree_level bpt) (root bpt)"

text \<open>The records of the tree, in the order of its leaves.\<close>

definition tree_records :: "('k, 'v) BPTree \<Rightarrow> ('k, 'v) rcd list" where
  "tree_records bpt = records_of bpt (tree_leaves bpt)"

text \<open>Neighbours in the list of leaves are linked by \<open>Next\<close> and \<open>Prev\<close>.\<close>

definition chain_ok :: "('k, 'v) BPTree \<Rightarrow> ptr list \<Rightarrow> bool" where
  "chain_ok bpt ls \<longleftrightarrow>
     list_all (\<lambda>(a, b). leafNext bpt a = Some b \<and> leafPrev bpt b = Some a) (zip ls (tl ls))"

text \<open>
  The invariants of a tree that the searches rely on: the height is that of every path;
  the leaves are distinct, linked in their order, and the last one is the tail of the leaf
  list; only a root leaf may be empty; the keys of the records are keys of the caller,
  strictly ascending from the first leaf to the last.
\<close>

definition wf_bpt :: "('k::linorder, 'v) BPTree \<Rightarrow> bool" where
  "wf_bpt bpt \<longleftrightarrow>
     1 \<le> height bpt
     \<and> shape_ok bpt (tree_level bpt) (root bpt)
     \<and> distinct (tree_leaves bpt)
     \<and> chain_ok bpt (tree_leaves bpt)
     \<and> tail bpt = last (tree_leaves bpt)
     \<and> (1 < height bpt \<longrightarrow> list_all (\<lambda>l. recs bpt l \<noteq> []) (tree_leaves bpt))
     \<and> list_all is_user (map Key (tree_records bpt))
     \<and> sorted_wrt key_less (map Key (tree_records bpt))"

text \<open>
  The separator invariant below a node: an internal node has at least two children, and
  the key of every child entry but the first is the key of the first record below that
  child.
\<close>

fun seps_ok :: "('k, 'v) BPTree \<Rightarrow> nat \<Rightarrow> ptr \<Rightarrow> bool" where
  "seps_ok bpt 0 p = True"
| "seps_ok bpt (Suc n) p =
     (case deref bpt p of
        Some (NonLeaf cs) \<Rightarrow>
          2 \<le> length cs
          \<and> list_all (\<lambda>c. seps_ok bpt n (CValue c)) cs
          \<and> list_all
               (\<lambda>c. case records_of bpt (leaves bpt n (CValue c)) of
                      [] \<Rightarrow> False
                    | r # rs \<Rightarrow> CKey c = Key r)
               (tl cs)
      | _ \<Rightarrow> False)"

definition separators_ok :: "('k, 'v) BPTree \<Rightarrow> bool" where
  "separators_ok bpt \<longleftrightarrow> seps_ok bpt (tree_level bpt) (root bpt)"

text \<open>The pairs an iterator returns for a list of records.\<close>

definition pairs :: "('k, 'v) rcd list \<Rightarrow> ('k key \<times> 'v) list" where
  "pairs rs = map (\<lambda>r. (Key r, Value r)) rs"

text \<open>The first or the last element of a list, as \<open>KeyMin\<close> or \<open>KeyMax\<close> selects it.\<close>

definition pick :: "int \<Rightarrow> 'a list \<Rightarrow> 'a" where
  "pick x xs = (if isKeyMin x then hd xs else last xs)"

text \<open>The number of records in the leaves before the leaf at position \<open>a\<close>.\<close>

definition offset :: "('k, 'v) BPTree \<Rightarrow> ptr list \<Rightarrow> nat \<Rightarrow> nat" where
  "offset bpt ls a = length (records_of bpt (take a ls))"

text \<open>The records at the positions \<open>g1, ..., g2\<close> of a list.\<close>

definition range_records :: "('k, 'v) rcd list \<Rightarrow> nat \<Rightarrow> nat \<Rightarrow> ('k, 'v) rcd list" where
  "range_records R g1 g2 = take (Suc g2 - g1) (drop g1 R)"

text \<open>
  The tree that \<open>bptree.go\<close> builds with maximum degree 5 from the keys 1 to 13 inserted in
  ascending order: a root with two internal children and six leaves.
\<close>

definition example_tree :: "(int, int) BPTree" where
  "example_tree =
     \<lparr>maxDegree = 5, keyComparer = intKeyComparer, tail = 6, head = 1, root = 7, height = 3,
      heap =
        [Leaf [Rcd (KUser 1) 10, Rcd (KUser 2) 20] 6 3,
         NonLeaf [NodeChild KNil 1, NodeChild (KUser 3) 3],
         Leaf [Rcd (KUser 3) 30, Rcd (KUser 4) 40] 1 4,
         Leaf [Rcd (KUser 5) 50, Rcd (KUser 6) 60] 3 5,
         Leaf [Rcd (KUser 7) 70, Rcd (KUser 8) 80] 4 6,
         Leaf [Rcd (KUser 9) 90, Rcd (KUser 10) 100, Rcd (KUser 11) 110, Rcd (KUser 12) 120,
               Rcd (KUser 13) 130] 5 1,
         NonLeaf [NodeChild KNil 2, NodeChild (KUser 5) 8],
         NonLeaf [NodeChild KNil 4, NodeChild (KUser 7) 5, NodeChild (KUser 9) 6]]\<rparr>"

text \<open>The position that a sentinel selects in the records of the tree.\<close>

definition sentinel_position :: "int \<Rightarrow> 'a list \<Rightarrow> nat" where
  "sentinel_position x R = (if isKeyMin x then 0 else length R - 1)"


subsection \<open>Ascending keys\<close>

text \<open>Keys of the caller, strictly ascending, at the positions from \<open>s\<close> on.\<close>

definition ascending_from :: "nat \<Rightarrow> ('k::linorder) key list \<Rightarrow> bool" where
  "ascending_from s ks \<longleftrightarrow>
     (\<forall>x. s \<le> x \<and> x < length ks \<longrightarrow> is_user (ks ! x))
     \<and> (\<forall>x y. s \<le> x \<and> x < y \<and> y < length ks \<longrightarrow> key_less (ks ! x) (ks ! y))"

text \<open>The records with a key of the caller between \<open>lo\<close> and \<open>hi\<close>.\<close>

definition in_range :: "('k::linorder) \<Rightarrow> 'k \<Rightarrow> ('k, 'v) rcd \<Rightarrow> bool" where
  "in_range lo hi r = (case Key r of KUser k \<Rightarrow> lo \<le> k \<and> k \<le> hi | _ \<Rightarrow> False)"


subsection \<open>The result of a split of an internal node\<close>

text \<open>
  What a split of an internal node with the child entries \<open>cs\<close> leaves behind: the node
  keeps the first \<open>k\<close> entries; the new sibling \<open>sib\<close> holds the others, with the key of
  its first entry cleared; the parent, whose entries were \<open>pcs\<close>, has one more entry, at
  \<open>slot\<close>, for the sibling, with the key that was cleared.
\<close>

definition split_at ::
  "('k, 'v) BPTree \<Rightarrow> ptr \<Rightarrow> 'k nodeChild list \<Rightarrow> nat \<Rightarrow> ptr \<Rightarrow> ptr \<Rightarrow> 'k nodeChild list \<Rightarrow> nat \<Rightarrow> bool" where
  "split_at bpt nl cs k sib parent pcs slot \<longleftrightarrow>
     nonLeafChildren bpt nl = Some (take k cs)
     \<and> nonLeafChildren bpt sib = Some (NodeChild KNil (CValue (cs ! k)) # drop (Suc k) cs)
     \<and> nonLeafChildren bpt parent
         = Some (take slot pcs @ NodeChild (CKey (cs ! k)) sib # drop slot pcs)"

text \<open>
  The tree that \<open>bptree.go\<close> builds with maximum degree 5 from the keys 1 to 12 inserted in
  ascending order: the root is an internal node with five child entries.
\<close>

definition full_root_tree :: "(int, int) BPTree" where
  "full_root_tree =
     \<lparr>maxDegree = 5, keyComparer = intKeyComparer, tail = 6, head = 1, root = 2, height = 2,
      heap =
        [Leaf [Rcd (KUser 1) 10, Rcd (KUser 2) 20] 6 3,
         NonLeaf [NodeChild KNil 1, NodeChild (KUser 3) 3, NodeChild (KUser 5) 4,
                  NodeChild (KUser 7) 5, NodeChild (KUser 9) 6],
         Leaf [Rcd (KUser 3) 30, Rcd (KUser 4) 40] 1 4,
         Leaf [Rcd (KUser 5) 50, Rcd (KUser 6) 60] 3 5,
         Leaf [Rcd (KUser 7) 70, Rcd (KUser 8) 80] 4 6,
         Leaf [Rcd (KUser 9) 90, Rcd (KUser 10) 100, Rcd (KUser 11) 110, Rcd (KUser 12) 120] 5 1]\<rparr>"

text \<open>
  The tree that \<open>bptree.go\<close> builds with maximum degree 5 from the keys 1 to 16: the second
  child of the root, at address 8, is an internal node with five child entries.
\<close>

definition full_inner_tree :: "(int, int) BPTree" where
  "full_inner_tree =
     \<lparr>maxDegree = 5, keyComparer = intKeyComparer, tail = 10, head = 1, root = 7, height = 3,
      heap =
        [Leaf [Rcd (KUser 1) 10, Rcd (KUser 2) 20] 10 3,
         NonLeaf [NodeChild KNil 1, NodeChild (KUser 3) 3],
         Leaf [Rcd (KUser 3) 30, Rcd (KUser 4) 40] 1 4,
         Leaf [Rcd (KUser 5) 50, Rcd (KUser 6) 60] 3 5,
         Leaf [Rcd (KUser 7) 70, Rcd (KUser 8) 80] 4 6,
         Leaf [Rcd (KUser 9) 90, Rcd (KUser 10) 100] 5 9,
         NonLeaf [NodeChild KNil 2, NodeChild (KUser 5) 8],
         NonLeaf [NodeChild KNil 4, NodeChild (KUser 7) 5, NodeChild (KUser 9) 6,
                  NodeChild (KUser 11) 9, NodeChild (KUser 13) 10],
         Leaf [Rcd (KUser 11) 110, Rcd (KUser 12) 120] 6 10,
         Leaf [Rcd (KUser 13) 130, Rcd (KUser 14) 140, Rcd (KUser 15) 150, Rcd (KUser 16) 160] 9 1]\<rparr>"

text \<open>
  The tree that the second version of the engine builds with maximum degree 4 from the keys
  1 to 32: the two children of the root, at the addresses 2 and 7, are internal nodes with
  four child entries each, and every leaf holds four records.
\<close>

definition full_inner_tree2 :: "(int, int) BPTree" where
  "full_inner_tree2 =
     \<lparr>maxDegree = 4, keyComparer = intKeyComparer, tail = 11, head = 1, root = 6, height = 3,
      heap =
        [Leaf [Rcd (KUser 1) 10, Rcd (KUser 2) 20, Rcd (KUser 3) 30, Rcd (KUser 4) 40] 11 3,
         NonLeaf [NodeChild KNil 1, NodeChild (KUser 5) 3, NodeChild (KUser 9) 4,
                  NodeChild (KUser 13) 5],
         Leaf [Rcd (KUser 5) 50, Rcd (KUser 6) 60, Rcd (KUser 7) 70, Rcd (KUser 8) 80] 1 4,
         Leaf [Rcd (KUser 9) 90, Rcd (KUser 10) 100, Rcd (KUser 11) 110, Rcd (KUser 12) 120] 3 5,
         Leaf [Rcd (KUser 13) 130, Rcd (KUser 14) 140, Rcd (KUser 15) 150, Rcd (KUser 16) 160] 4 8,
         NonLeaf [NodeChild KNil 2, NodeChild (KUser 17) 7],
         NonLeaf [NodeChild KNil 8, NodeChild (KUser 21) 9, NodeChild (KUser 25) 10,
                  NodeChild (KUser 29) 11],
         Leaf [Rcd (KUser 17) 170, Rcd (KUser 18) 180, Rcd (KUser 19) 190, Rcd (KUser 20) 200] 5 9,
         Leaf [Rcd (KUser 21) 210, Rcd (KUser 22) 220, Rcd (KUser 23) 230, Rcd (KUser 24) 240] 8 10,
         Leaf [Rcd (KUser 25) 250, Rcd (KUser 26) 260, Rcd (KUser 27) 270, Rcd (KUser 28) 280] 9 11,
         Leaf [Rcd (KUser 29) 290, Rcd (KUser 30) 300, Rcd (KUser 31) 310, Rcd (KUser 32) 320] 10 1]\<rparr>"

subsection \<open>Paths of internal nodes\<close>











section \<open>Set semantics of the point operations\<close>

text \<open>
  C1. After any sequence of AddRecord, UpdateRecord, AddOrUpdateRecord and DeleteRecord on a
  fresh tree, HasRecord(k) is true exactly for the live keys. The engine of \<open>bptree.go\<close>
  accepts the maximum degree 4, and there ten insertions of the keys 1 to 10 all succeed
  (each returns \<open>(nil, true)\<close>), after which \<open>HasRecord(1)\<close> panics instead of
  returning \<open>(10, true)\<close>: the split of the full root (four children) in
  \<open>trySplitNonLeaf\<close> leaves \<open>(4 - 1) / 2 = 1\<close> child in the left node, and
  \<open>LocateNodeChild\<close> reads entry 1 of that node.
\<close>

theorem C1_HasRecord_panics_after_ten_inserts:
  "(case Init 4 intKeyComparer \<bind> (\<lambda>bpt. apply_operations bpt (adds_upto 10)) of
      Some (results, bpt) \<Rightarrow>
        results = replicate 10 (None, True) \<and> HasRecord bpt (KUser 1) = None
    | None \<Rightarrow> False)"
  by code_simp

section \<open>Occupancy predicates\<close>

text \<open>
  C5 as stated: an internal node is sparse exactly when \<open>2 * count \<le> maxDegree - 1\<close>.
  The second engine calls two children sparse at maximum degree 4.
\<close>

theorem C5_counterexample:
  "nodeChildren_IsSparse2 [NodeChild KNil 1, NodeChild (KUser (5::int)) 2] 4
   \<and> \<not> (2 * 2 \<le> (4::int) - 1)"
  by (simp add: nodeChildren_IsSparse2_def)

text \<open>
  C5 amended: for every tree with maximum degree \<open>maxDegree\<close> (at least 3), leaves are
  full at \<open>count = maxDegree\<close> and sparse at \<open>2 * count \<le> maxDegree\<close>; internal nodes are
  full at \<open>count = maxDegree\<close>; they are sparse at \<open>2 * count \<le> maxDegree - 1\<close> in
  \<open>bptree.go\<close> and at \<open>2 * count \<le> maxDegree\<close> in the second engine.
\<close>

theorem C5_occupancy:
  assumes "3 \<le> m"
  shows "records_IsFull rs m = (int (length rs) = m)
   \<and> records_IsSparse rs m = (2 * int (length rs) \<le> m)
   \<and> nodeChildren_IsFull nc m = (int (length nc) = m)
   \<and> nodeChildren_IsSparse nc m = (2 * int (length nc) \<le> m - 1)
   \<and> nodeChildren_IsSparse2 nc m = (2 * int (length nc) \<le> m)"
  by (auto simp: records_IsFull_def records_IsSparse_def nodeChildren_IsFull_def
      nodeChildren_IsSparse_def nodeChildren_IsSparse2_def)

theorem C5_occupancy_witness:
  "(3 :: int) \<le> 4
   \<and> \<not> records_IsFull [Rcd (KUser (1::int)) (10::int), Rcd (KUser 2) 20] 4
   \<and> records_IsSparse [Rcd (KUser (1::int)) (10::int), Rcd (KUser 2) 20] 4
   \<and> \<not> nodeChildren_IsFull [NodeChild KNil 1, NodeChild (KUser (5::int)) 2] 4
   \<and> \<not> nodeChildren_IsSparse [NodeChild KNil 1, NodeChild (KUser (5::int)) 2] 4
   \<and> nodeChildren_IsSparse2 [NodeChild KNil 1, NodeChild (KUser (5::int)) 2] 4"
  using C5_occupancy [of 4 "[Rcd (KUser (1::int)) (10::int), Rcd (KUser 2) 20]"
      "[NodeChild KNil 1, NodeChild (KUser (5::int)) 2]"]
  by simp

section \<open>Construction\<close>

text \<open>
  C8 as stated: construction with a maximum degree below 4 fails. \<open>Init\<close> of \<open>bptree.go\<close>
  accepts 3.
\<close>

theorem C8_counterexample:
  "(case (Init 3 intKeyComparer :: (int, int) BPTree option) of
      Some bpt \<Rightarrow> Height bpt = 1 \<and> IsEmpty bpt = Some True
    | None \<Rightarrow> False)"
  by code_simp

lemma Init_Some:
  "3 \<le> m \<Longrightarrow>
   Init m c = Some \<lparr>maxDegree = m, keyComparer = c, tail = 1, head = 1, root = 1, height = 1,
                    heap = [Leaf [] 1 1]\<rparr>"
  by (simp add: Init_def alloc_def leafList_Init_def setPrev_def setNext_def deref_def store_def)

lemma Init2_Some:
  "4 \<le> m \<Longrightarrow>
   Init2 m c = Some \<lparr>maxDegree = m, keyComparer = c, tail = 1, head = 1, root = 1, height = 1,
                     heap = [Leaf [] 1 1]\<rparr>"
  by (simp add: Init2_def alloc_def leafList_Init_def setPrev_def setNext_def deref_def store_def)

text \<open>
  C8 amended: \<open>Init\<close> of \<open>bptree.go\<close> fails exactly for a maximum degree below 3, \<open>Init\<close> of
  the second engine exactly below 4; every accepted maximum degree gives an empty tree of
  height 1.
\<close>

theorem C8_Init:
  "(m < 3 \<longrightarrow> (Init m c :: ('k, 'v) BPTree option) = None)
   \<and> (3 \<le> m \<longrightarrow> (\<exists>bpt :: ('k, 'v) BPTree. Init m c = Some bpt \<and> Height bpt = 1
          \<and> IsEmpty bpt = Some True \<and> MaxDegree bpt = m))
   \<and> (m < 4 \<longrightarrow> (Init2 m c :: ('k, 'v) BPTree option) = None)
   \<and> (4 \<le> m \<longrightarrow> (\<exists>bpt :: ('k, 'v) BPTree. Init2 m c = Some bpt \<and> Height bpt = 1
          \<and> IsEmpty bpt = Some True \<and> MaxDegree bpt = m))"
proof (intro conjI impI)
  assume "m < 3"
  then show "(Init m c :: ('k, 'v) BPTree option) = None"
    by (simp add: Init_def)
next
  assume "3 \<le> m"
  then show "\<exists>bpt :: ('k, 'v) BPTree. Init m c = Some bpt \<and> Height bpt = 1
      \<and> IsEmpty bpt = Some True \<and> MaxDegree bpt = m"
    by (simp add: Init_Some Height_def IsEmpty_def MaxDegree_def leafRecords_def deref_def)
next
  assume "m < 4"
  then show "(Init2 m c :: ('k, 'v) BPTree option) = None"
    by (simp add: Init2_def)
next
  assume "4 \<le> m"
  then show "\<exists>bpt :: ('k, 'v) BPTree. Init2 m c = Some bpt \<and> Height bpt = 1
      \<and> IsEmpty bpt = Some True \<and> MaxDegree bpt = m"
    by (simp add: Init2_Some Height_def IsEmpty_def MaxDegree_def leafRecords_def deref_def)
qed

theorem C8_Init_witness:
  "(2::int) < 3 \<and> (3::int) \<le> 3 \<and> (3::int) < 4 \<and> (4::int) \<le> 4
   \<and> (Init 2 intKeyComparer :: (int, int) BPTree option) = None
   \<and> (\<exists>bpt :: (int, int) BPTree. Init 3 intKeyComparer = Some bpt \<and> Height bpt = 1
          \<and> IsEmpty bpt = Some True \<and> MaxDegree bpt = 3)
   \<and> (Init2 3 intKeyComparer :: (int, int) BPTree option) = None
   \<and> (\<exists>bpt :: (int, int) BPTree. Init2 4 intKeyComparer = Some bpt \<and> Height bpt = 1
          \<and> IsEmpty bpt = Some True \<and> MaxDegree bpt = 4)"
  using C8_Init [of 2 intKeyComparer, where ?'v = int]
    C8_Init [of 3 intKeyComparer, where ?'v = int]
    C8_Init [of 4 intKeyComparer, where ?'v = int]
  by simp

section \<open>Sentinels in the point operations\<close>

text \<open>
  C9. After \<open>AddRecord\<close> or \<open>AddOrUpdateRecord\<close> with a sentinel as the key, no record
  of the tree has a sentinel key. On the empty tree \<open>LocateRecord\<close> answers "not found"
  when the leaf has no record, before it looks at the key; the callers then insert the
  record: \<open>AddRecord(KeyMin, 7)\<close> returns \<open>(nil, true)\<close> and the root leaf holds the record
  with the key \<open>KeyMin\<close>, likewise \<open>AddOrUpdateRecord(KeyMax, 7)\<close>. Afterwards a search
  for a key of the caller hands the sentinel to the comparer, which panics on it.
\<close>

theorem C9_sentinel_stored_in_empty_tree:
  "(case Init 5 intKeyComparer of
      Some bpt \<Rightarrow>
        IsEmpty bpt = Some True
        \<and> (case AddRecord bpt KeyMin (7::int) of
              Some (r, bpt') \<Rightarrow>
                r = (None, True) \<and> leafRecords bpt' (root bpt') = Some [Rcd KeyMin 7]
                \<and> HasRecord bpt' (KUser 1) = None
            | None \<Rightarrow> False)
        \<and> (case AddOrUpdateRecord bpt KeyMax 7 of
              Some (r, bpt') \<Rightarrow>
                r = (None, True) \<and> leafRecords bpt' (root bpt') = Some [Rcd KeyMax 7]
            | None \<Rightarrow> False)
    | None \<Rightarrow> False)"
  by code_simp

text \<open>
  C10. On a non-empty tree DeleteRecord(KeyMin) removes the record with the smallest key,
  and only that one. With maximum degree 4 in \<open>bptree.go\<close>, after the insertion of the keys
  1 to 10 the largest key is 10; \<open>DeleteRecord(KeyMin)\<close> returns \<open>(10, true)\<close>, the value of
  key 1, and leaves a tree that holds the keys 2, 3 and 4 only: \<open>tryMergeLeaf\<close> merges the
  two leaves of a two-child internal node that is not the root and then calls
  \<open>decreaseHeight\<close>, which replaces the root by its first child and drops the rest.
\<close>

theorem C10_DeleteRecord_KeyMin_drops_other_records:
  "(case Init 4 intKeyComparer \<bind> (\<lambda>bpt. apply_operations bpt (adds_upto 10)) of
      Some (results, bpt) \<Rightarrow>
        HasRecord bpt KeyMin = Some (Some 10, True)
        \<and> HasRecord bpt KeyMax = Some (Some 100, True)
        \<and> (case DeleteRecord bpt KeyMin of
              Some (r, bpt') \<Rightarrow>
                r = (Some 10, True)
                \<and> HasRecord bpt' KeyMax = Some (Some 40, True)
                \<and> (SearchForward bpt' KeyMin KeyMax \<bind> enumerate_forward bpt')
                    = Some [(KUser 2, 20), (KUser 3, 30), (KUser 4, 40)]
            | None \<Rightarrow> False)
    | None \<Rightarrow> False)"
  by code_simp

section \<open>Range search\<close>

text \<open>
  C3 as stated: SearchForward(hi, lo), the larger key first, enumerates the records with
  keys in \<open>[lo, hi]\<close>. With the keys 1, 2, 3 in the tree, \<open>SearchForward(3, 1)\<close> and
  \<open>SearchBackward(3, 1)\<close> enumerate nothing: \<open>findAndLocateRecords\<close> takes its first
  argument as the lower bound and returns at once when it compares greater than the second.
\<close>

theorem C3_counterexample:
  "(case Init 5 intKeyComparer \<bind> (\<lambda>bpt. apply_operations bpt (adds_upto 3)) of
      Some (results, bpt) \<Rightarrow>
        intKeyComparer (KUser 1) (KUser 3) = Some (- 1)
        \<and> HasRecord bpt (KUser 2) = Some (Some 20, True)
        \<and> (SearchForward bpt (KUser 3) (KUser 1) \<bind> enumerate_forward bpt) = Some []
        \<and> (SearchBackward bpt (KUser 3) (KUser 1) \<bind> enumerate_backward bpt) = Some []
    | None \<Rightarrow> False)"
  by code_simp

text \<open>
  C7. A range search over an interval that holds no record returns an iterator that is at
  its end. With the single key 1 in the tree, the interval \<open>[0, 0]\<close> holds no record
  (\<open>HasRecord(0)\<close> is false), and \<open>SearchForward(0, 0)\<close> returns an iterator that is not at
  its end and whose current record is the one with key 1: for equal bounds
  \<open>findAndLocateRecords\<close> returns the position where \<open>findRecord\<close> stopped without looking
  at whether the key was found there.
\<close>

theorem C7_equal_bounds_absent_key:
  "(case Init 5 intKeyComparer \<bind> (\<lambda>bpt. apply_operations bpt (adds_upto 1)) of
      Some (results, bpt) \<Rightarrow>
        HasRecord bpt (KUser 0) = Some (None, False)
        \<and> (case SearchForward bpt (KUser 0) (KUser 0) of
              Some it \<Rightarrow> \<not> IsAtEnd it \<and> Record bpt it = Some (KUser 1, 10)
            | None \<Rightarrow> False)
        \<and> (case SearchBackward bpt (KUser 0) (KUser 0) of
              Some it \<Rightarrow> \<not> IsAtEnd it \<and> Record bpt it = Some (KUser 1, 10)
            | None \<Rightarrow> False)
    | None \<Rightarrow> False)"
  by code_simp

section \<open>Split of an internal node\<close>


section \<open>Searching a well-formed tree\<close>

subsection \<open>Positions in the list of leaves\<close>

lemma index_Some_iff: "index xs i = Some x \<longleftrightarrow> 0 \<le> i \<and> i < int (length xs) \<and> x = xs ! nat i"
  by (auto simp: index_def)

lemma index_nat [simp]: "j < length xs \<Longrightarrow> index xs (int j) = Some (xs ! j)"
  by (simp add: index_def)

lemma index_0 [simp]: "xs \<noteq> [] \<Longrightarrow> index xs 0 = Some (hd xs)"
  by (cases xs) (simp_all add: index_def)

lemma index_last [simp]: "xs \<noteq> [] \<Longrightarrow> index xs (int (length xs) - 1) = Some (last xs)"
  by (cases xs rule: rev_cases) (simp_all add: index_def nth_append)

lemma leafRecords_Leaf [simp]: "deref bpt p = Some (Leaf rs pv nx) \<Longrightarrow> leafRecords bpt p = Some rs"
  by (simp add: leafRecords_def)

lemma nonLeafChildren_NonLeaf [simp]: "deref bpt p = Some (NonLeaf cs) \<Longrightarrow> nonLeafChildren bpt p = Some cs"
  by (simp add: nonLeafChildren_def)

lemma recs_Leaf [simp]: "deref bpt p = Some (Leaf rs pv nx) \<Longrightarrow> recs bpt p = rs"
  by (simp add: recs_def)

lemma LocateRecord_path_Append [simp]: "LocateRecord_path (Append rp p i) = Some (p, i)"
  by (simp add: LocateRecord_path_def Append_def index_def nth_append)

lemma LocateRecord_KMinMax:
  "LocateRecord rs (KMinMax x) c =
     Some (if rs = [] then (0, False) else (if isKeyMin x then 0 else int (length rs) - 1, True))"
  by (simp add: LocateRecord_def Let_def)

lemma LocateNodeChild_KMinMax:
  "LocateNodeChild cs (KMinMax x) c = Some (if isKeyMin x then 0 else int (length cs) - 1, True)"
  by (simp add: LocateNodeChild_def Let_def)

lemma shape_ok_leaves_nonempty: "shape_ok bpt n p \<Longrightarrow> leaves bpt n p \<noteq> []"
proof (induction n arbitrary: p)
  case 0
  then show ?case by simp
next
  case (Suc n)
  then obtain cs where cs: "deref bpt p = Some (NonLeaf cs)" "cs \<noteq> []"
    "list_all (\<lambda>c. shape_ok bpt n (CValue c)) cs"
    by (auto split: option.splits node.splits)
  then have "shape_ok bpt n (CValue (hd cs))" by (cases cs) auto
  then have "leaves bpt n (CValue (hd cs)) \<noteq> []" by (rule Suc.IH)
  with cs show ?case by (cases cs) auto
qed

lemma hd_concat_ne: "xss \<noteq> [] \<Longrightarrow> hd xss \<noteq> [] \<Longrightarrow> hd (concat xss) = hd (hd xss)"
  by (cases xss) auto

lemma last_concat_ne: "xss \<noteq> [] \<Longrightarrow> last xss \<noteq> [] \<Longrightarrow> last (concat xss) = last (last xss)"
  by (cases xss rule: rev_cases) auto

lemma pick_concat: "xss \<noteq> [] \<Longrightarrow> \<forall>xs \<in> set xss. xs \<noteq> [] \<Longrightarrow> pick x (concat xss) = pick x (pick x xss)"
  unfolding pick_def by (simp add: hd_concat_ne last_concat_ne)

lemma findRecord_loop_sentinel:
  assumes "shape_ok bpt n p" "height bpt = int (length rp) + 1 + int n"
  shows "\<exists>rp'. findRecord_loop bpt (KMinMax x) rp p
           = Some (rp', recs bpt (pick x (leaves bpt n p)) \<noteq> [])
         \<and> LocateRecord_path rp'
           = Some (pick x (leaves bpt n p),
               if recs bpt (pick x (leaves bpt n p)) = [] \<or> isKeyMin x then 0
               else int (length (recs bpt (pick x (leaves bpt n p)))) - 1)"
  using assms
proof (induction n arbitrary: p rp)
  case 0
  then obtain rs pv nx where d: "deref bpt p = Some (Leaf rs pv nx)"
    by (auto split: option.splits node.splits)
  with 0 show ?case
    by (subst findRecord_loop.simps) (auto simp: LocateRecord_KMinMax pick_def)
next
  case (Suc n)
  then obtain cs where cs: "deref bpt p = Some (NonLeaf cs)" "cs \<noteq> []"
    "list_all (\<lambda>c. shape_ok bpt n (CValue c)) cs"
    by (auto split: option.splits node.splits)
  let ?c = "pick x cs"
  have cin: "?c \<in> set cs" using cs(2) by (auto simp: pick_def)
  then have sh: "shape_ok bpt n (CValue ?c)" using cs(3) by (auto simp: list_all_iff)
  have idx: "index cs (if isKeyMin x then 0 else int (length cs) - 1) = Some ?c"
    using cs(2) by (auto simp: pick_def)
  have h: "height bpt = int (length (Append rp p (if isKeyMin x then 0 else int (length cs) - 1))) + 1 + int n"
    using Suc.prems(2) by (simp add: Append_def)
  from Suc.IH[OF sh h] obtain rp' where rp':
    "findRecord_loop bpt (KMinMax x) (Append rp p (if isKeyMin x then 0 else int (length cs) - 1)) (CValue ?c)
       = Some (rp', recs bpt (pick x (leaves bpt n (CValue ?c))) \<noteq> [])"
    "LocateRecord_path rp' = Some (pick x (leaves bpt n (CValue ?c)),
               if recs bpt (pick x (leaves bpt n (CValue ?c))) = [] \<or> isKeyMin x then 0
               else int (length (recs bpt (pick x (leaves bpt n (CValue ?c))))) - 1)"
    by blast
  have lv: "pick x (leaves bpt (Suc n) p) = pick x (leaves bpt n (CValue ?c))"
  proof -
    have ne: "\<forall>xs \<in> set (map (\<lambda>c. leaves bpt n (CValue c)) cs). xs \<noteq> []"
      using cs(3) by (auto simp: list_all_iff dest: shape_ok_leaves_nonempty)
    have "pick x (map (\<lambda>c. leaves bpt n (CValue c)) cs) = leaves bpt n (CValue ?c)"
      using cs(2) by (auto simp: pick_def hd_map last_map)
    with pick_concat[OF _ ne, of x] cs show ?thesis by simp
  qed
  have ne: "int (length rp) + 1 \<noteq> height bpt" using Suc.prems(2) by simp
  show ?case
    apply (subst findRecord_loop.simps)
    using ne cs(1) idx rp' lv
    by (auto simp: LocateNodeChild_KMinMax)
qed

lemma offset_0 [simp]: "offset bpt ls 0 = 0"
  by (simp add: offset_def records_of_def)

lemma offset_Suc: "a < length ls \<Longrightarrow> offset bpt ls (Suc a) = offset bpt ls a + length (recs bpt (ls ! a))"
  by (simp add: offset_def records_of_def take_Suc_conv_app_nth)

lemma offset_mono: "a \<le> b \<Longrightarrow> b \<le> length ls \<Longrightarrow> offset bpt ls a \<le> offset bpt ls b"
proof (induction b)
  case 0 then show ?case by simp
next
  case (Suc b)
  then show ?case by (cases "a = Suc b") (auto simp: offset_Suc)
qed

lemma offset_length: "offset bpt ls (length ls) = length (records_of bpt ls)"
  by (simp add: offset_def)

lemma offset_Suc_le: "a < b \<Longrightarrow> b \<le> length ls \<Longrightarrow> offset bpt ls a + length (recs bpt (ls ! a)) \<le> offset bpt ls b"
  using offset_mono[of "Suc a" b ls bpt] by (simp add: offset_Suc)

lemma records_of_nth:
  assumes "a < length ls" "i < length (recs bpt (ls ! a))"
  shows "offset bpt ls a + i < length (records_of bpt ls)"
    and "records_of bpt ls ! (offset bpt ls a + i) = recs bpt (ls ! a) ! i"
proof -
  have ls: "ls = take a ls @ ls ! a # drop (Suc a) ls"
    using assms(1) by (simp add: id_take_nth_drop)
  have "records_of bpt ls = records_of bpt (take a ls) @ recs bpt (ls ! a) @ records_of bpt (drop (Suc a) ls)"
    by (subst ls) (simp add: records_of_def)
  then show "offset bpt ls a + i < length (records_of bpt ls)"
    and "records_of bpt ls ! (offset bpt ls a + i) = recs bpt (ls ! a) ! i"
    using assms(2) by (simp_all add: offset_def nth_append)
qed

lemma pos_inj:
  assumes "a < length ls" "i < length (recs bpt (ls ! a))" "b < length ls" "j < length (recs bpt (ls ! b))"
    "offset bpt ls a + i = offset bpt ls b + j"
  shows "a = b \<and> i = j"
proof -
  have "\<not> a < b" using offset_Suc_le[of a b ls bpt] assms by auto
  moreover have "\<not> b < a" using offset_Suc_le[of b a ls bpt] assms by auto
  ultimately show ?thesis using assms by auto
qed

lemma pos_less_leaf:
  assumes "a < length ls" "i < length (recs bpt (ls ! a))" "b < length ls" "j < length (recs bpt (ls ! b))"
    "offset bpt ls a + i < offset bpt ls b + j"
  shows "a < b \<or> (a = b \<and> i < j)"
proof -
  have "\<not> b < a" using offset_Suc_le[of b a ls bpt] assms by auto
  then show ?thesis using assms by (cases "a = b") auto
qed

lemma chain_ok_nth:
  assumes "chain_ok bpt ls" "Suc a < length ls"
  shows "leafNext bpt (ls ! a) = Some (ls ! Suc a)" "leafPrev bpt (ls ! Suc a) = Some (ls ! a)"
proof -
  have "a < length (zip ls (tl ls))" using assms(2) by simp
  moreover have "zip ls (tl ls) ! a = (ls ! a, ls ! Suc a)" using assms(2) by (simp add: nth_tl)
  ultimately have "leafNext bpt (ls ! a) = Some (ls ! Suc a) \<and> leafPrev bpt (ls ! Suc a) = Some (ls ! a)"
    using assms(1) unfolding chain_ok_def list_all_length by fastforce
  then show "leafNext bpt (ls ! a) = Some (ls ! Suc a)" "leafPrev bpt (ls ! Suc a) = Some (ls ! a)" by auto
qed

lemma recs_nonempty_leafRecords: "recs bpt l \<noteq> [] \<Longrightarrow> leafRecords bpt l = Some (recs bpt l)"
  by (auto simp: recs_def split: option.splits)

lemma range_records_Cons:
  assumes "g1 < length R" "g1 < g2"
  shows "range_records R g1 g2 = R ! g1 # range_records R (Suc g1) g2"
proof -
  have "drop g1 R = R ! g1 # drop (Suc g1) R" using assms(1) by (simp add: Cons_nth_drop_Suc)
  moreover have "Suc g2 - g1 = Suc (Suc g2 - Suc g1)" using assms(2) by simp
  ultimately show ?thesis unfolding range_records_def by (metis take_Suc_Cons)
qed

lemma range_records_single: "g < length R \<Longrightarrow> range_records R g g = [R ! g]"
  by (simp add: range_records_def take_Suc_conv_app_nth)

lemma range_records_snoc:
  assumes "g2 < length R" "g1 < g2"
  shows "range_records R g1 g2 = range_records R g1 (g2 - 1) @ [R ! g2]"
proof -
  have "Suc g2 - g1 = Suc (g2 - g1)" using assms(2) by simp
  moreover have "g2 - g1 < length (drop g1 R)" using assms by simp
  moreover have "drop g1 R ! (g2 - g1) = R ! g2" using assms by simp
  moreover have "Suc (g2 - 1) - g1 = g2 - g1" using assms(2) by simp
  ultimately show ?thesis unfolding range_records_def
    by (simp add: take_Suc_conv_app_nth)
qed

lemma Record_at:
  "leafRecords bpt l = Some rs \<Longrightarrow> i < length rs \<Longrightarrow>
   Record bpt \<lparr>currentLeaf = l, currentRecordIndex = int i, lastLeaf = lb, lastRecordIndex = j,
               isAtEnd = False\<rparr> = Some (Key (rs ! i), Value (rs ! i))"
  by (simp add: Record_def)

lemma forward_Advance_end:
  "forward_Advance bpt \<lparr>currentLeaf = l, currentRecordIndex = i, lastLeaf = l, lastRecordIndex = i,
               isAtEnd = False\<rparr>
   = Some \<lparr>currentLeaf = 0, currentRecordIndex = 0, lastLeaf = 0, lastRecordIndex = 0, isAtEnd = True\<rparr>"
  by (simp add: forward_Advance_def iterator_advance_def)

lemma forward_Advance_within:
  "leafRecords bpt l = Some rs \<Longrightarrow> \<not> (l = lb \<and> i = j) \<Longrightarrow> i < int (length rs) - 1 \<Longrightarrow>
   forward_Advance bpt \<lparr>currentLeaf = l, currentRecordIndex = i, lastLeaf = lb, lastRecordIndex = j,
               isAtEnd = False\<rparr>
   = Some \<lparr>currentLeaf = l, currentRecordIndex = i + 1, lastLeaf = lb, lastRecordIndex = j,
               isAtEnd = False\<rparr>"
  by (auto simp: forward_Advance_def iterator_advance_def)

lemma forward_Advance_next:
  "leafRecords bpt l = Some rs \<Longrightarrow> \<not> (l = lb \<and> i = j) \<Longrightarrow> \<not> i < int (length rs) - 1 \<Longrightarrow>
   leafNext bpt l = Some n \<Longrightarrow>
   forward_Advance bpt \<lparr>currentLeaf = l, currentRecordIndex = i, lastLeaf = lb, lastRecordIndex = j,
               isAtEnd = False\<rparr>
   = Some \<lparr>currentLeaf = n, currentRecordIndex = 0, lastLeaf = lb, lastRecordIndex = j,
               isAtEnd = False\<rparr>"
  by (auto simp: forward_Advance_def iterator_advance_def)

lemma enumerate_forward_end: "isAtEnd it \<Longrightarrow> enumerate_forward bpt it = Some []"
  by (subst enumerate_forward.simps) (simp add: IsAtEnd_def)

lemma enumerate_forward_step:
  "\<not> isAtEnd it \<Longrightarrow> Record bpt it = Some kv \<Longrightarrow> forward_Advance bpt it = Some it' \<Longrightarrow>
   enumerate_forward bpt it' = Some rest \<Longrightarrow> enumerate_forward bpt it = Some (kv # rest)"
  by (subst enumerate_forward.simps) (simp add: IsAtEnd_def)

lemma enumerate_forward_range:
  assumes "distinct ls" "chain_ok bpt ls" "\<forall>l \<in> set ls. recs bpt l \<noteq> []"
    and "b < length ls" "j < length (recs bpt (ls ! b))"
    and "a < length ls" "i < length (recs bpt (ls ! a))"
    and "offset bpt ls a + i \<le> offset bpt ls b + j"
  shows "enumerate_forward bpt \<lparr>currentLeaf = ls ! a, currentRecordIndex = int i,
            lastLeaf = ls ! b, lastRecordIndex = int j, isAtEnd = False\<rparr>
         = Some (pairs (range_records (records_of bpt ls) (offset bpt ls a + i) (offset bpt ls b + j)))"
  using assms(6-8)
proof (induction k \<equiv> "offset bpt ls b + j - (offset bpt ls a + i)" arbitrary: a i)
  case 0
  then have eq: "offset bpt ls a + i = offset bpt ls b + j" by simp
  with pos_inj[OF 0(2,3) assms(4,5)] have ab: "a = b" "i = j" by auto
  have lr: "leafRecords bpt (ls ! a) = Some (recs bpt (ls ! a))"
    using 0(2) assms(3) by (auto intro: recs_nonempty_leafRecords)
  have R: "range_records (records_of bpt ls) (offset bpt ls a + i) (offset bpt ls b + j)
      = [recs bpt (ls ! a) ! i]"
    using records_of_nth[OF 0(2,3)] eq range_records_single[of "offset bpt ls a + i" "records_of bpt ls"]
    by simp
  have "enumerate_forward bpt \<lparr>currentLeaf = ls ! a, currentRecordIndex = int i,
            lastLeaf = ls ! a, lastRecordIndex = int i, isAtEnd = False\<rparr>
      = Some [(Key (recs bpt (ls ! a) ! i), Value (recs bpt (ls ! a) ! i))]"
    using enumerate_forward_step[OF _ Record_at[OF lr 0(3)] forward_Advance_end enumerate_forward_end]
    by simp
  then show ?case using R ab by (simp add: pairs_def)
next
  case (Suc k)
  let ?g1 = "offset bpt ls a + i" and ?g2 = "offset bpt ls b + j"
  have lt: "?g1 < ?g2" using Suc(2) by simp
  have lr: "leafRecords bpt (ls ! a) = Some (recs bpt (ls ! a))"
    using Suc(3) assms(3) by (auto intro: recs_nonempty_leafRecords)
  from pos_less_leaf[OF Suc(3,4) assms(4,5) lt] have ord: "a < b \<or> (a = b \<and> i < j)" .
  have neq: "\<not> (ls ! a = ls ! b \<and> int i = int j)"
    using ord assms(1) Suc(3) assms(4) by (auto simp: nth_eq_iff_index_eq)
  have R: "range_records (records_of bpt ls) ?g1 ?g2
      = recs bpt (ls ! a) ! i # range_records (records_of bpt ls) (Suc ?g1) ?g2"
    using records_of_nth[OF Suc(3,4)] lt range_records_Cons[of "offset bpt ls a + i" "records_of bpt ls" "offset bpt ls b + j"]
    by simp
  show ?case
  proof (cases "int i < int (length (recs bpt (ls ! a))) - 1")
    case True
    then have i': "Suc i < length (recs bpt (ls ! a))" by simp
    have k: "k = ?g2 - (offset bpt ls a + Suc i)" using Suc(2) by simp
    have le: "offset bpt ls a + Suc i \<le> ?g2" using lt by simp
    from Suc(1)[OF k Suc(3) i' le]
    have IH: "enumerate_forward bpt \<lparr>currentLeaf = ls ! a, currentRecordIndex = int i + 1,
            lastLeaf = ls ! b, lastRecordIndex = int j, isAtEnd = False\<rparr>
         = Some (pairs (range_records (records_of bpt ls) (Suc ?g1) ?g2))"
      by (simp add: add.commute)
    show ?thesis
      unfolding R pairs_def
      using enumerate_forward_step[OF _ Record_at[OF lr Suc(4)] forward_Advance_within[OF lr neq True] IH]
      by (simp add: pairs_def)
  next
    case False
    then have il: "i = length (recs bpt (ls ! a)) - 1" using Suc(4) by simp
    have ab: "a < b" using ord il assms(5) by auto
    then have sa: "Suc a < length ls" using assms(4) by simp
    have nx: "leafNext bpt (ls ! a) = Some (ls ! Suc a)" using chain_ok_nth[OF assms(2) sa] by simp
    have ne: "0 < length (recs bpt (ls ! Suc a))" using assms(3) sa by auto
    have g: "offset bpt ls (Suc a) + 0 = Suc ?g1" using il Suc(3,4) by (simp add: offset_Suc)
    have k: "k = ?g2 - (offset bpt ls (Suc a) + 0)" using Suc(2) g by simp
    have le: "offset bpt ls (Suc a) + 0 \<le> ?g2" using lt g by simp
    from Suc(1)[OF k sa ne le]
    have IH: "enumerate_forward bpt \<lparr>currentLeaf = ls ! Suc a, currentRecordIndex = 0,
            lastLeaf = ls ! b, lastRecordIndex = int j, isAtEnd = False\<rparr>
         = Some (pairs (range_records (records_of bpt ls) (Suc ?g1) ?g2))" using g by simp
    show ?thesis
      unfolding R pairs_def
      using enumerate_forward_step[OF _ Record_at[OF lr Suc(4)] forward_Advance_next[OF lr neq False nx] IH]
      by (simp add: pairs_def)
  qed
qed

lemma backward_Advance_end:
  "backward_Advance bpt \<lparr>currentLeaf = l, currentRecordIndex = i, lastLeaf = l, lastRecordIndex = i,
               isAtEnd = False\<rparr>
   = Some \<lparr>currentLeaf = 0, currentRecordIndex = 0, lastLeaf = 0, lastRecordIndex = 0, isAtEnd = True\<rparr>"
  by (simp add: backward_Advance_def iterator_advance_def)

lemma backward_Advance_within:
  "\<not> (l = lb \<and> i = j) \<Longrightarrow> 1 \<le> i \<Longrightarrow>
   backward_Advance bpt \<lparr>currentLeaf = l, currentRecordIndex = i, lastLeaf = lb, lastRecordIndex = j,
               isAtEnd = False\<rparr>
   = Some \<lparr>currentLeaf = l, currentRecordIndex = i - 1, lastLeaf = lb, lastRecordIndex = j,
               isAtEnd = False\<rparr>"
  by (auto simp: backward_Advance_def iterator_advance_def)

lemma backward_Advance_prev:
  "\<not> (l = lb \<and> i = j) \<Longrightarrow> \<not> 1 \<le> i \<Longrightarrow> leafPrev bpt l = Some p \<Longrightarrow> leafRecords bpt p = Some rs \<Longrightarrow>
   backward_Advance bpt \<lparr>currentLeaf = l, currentRecordIndex = i, lastLeaf = lb, lastRecordIndex = j,
               isAtEnd = False\<rparr>
   = Some \<lparr>currentLeaf = p, currentRecordIndex = int (length rs) - 1, lastLeaf = lb, lastRecordIndex = j,
               isAtEnd = False\<rparr>"
  by (auto simp: backward_Advance_def iterator_advance_def)

lemma enumerate_backward_end: "isAtEnd it \<Longrightarrow> enumerate_backward bpt it = Some []"
  by (subst enumerate_backward.simps) (simp add: IsAtEnd_def)

lemma enumerate_backward_step:
  "\<not> isAtEnd it \<Longrightarrow> Record bpt it = Some kv \<Longrightarrow> backward_Advance bpt it = Some it' \<Longrightarrow>
   enumerate_backward bpt it' = Some rest \<Longrightarrow> enumerate_backward bpt it = Some (kv # rest)"
  by (subst enumerate_backward.simps) (simp add: IsAtEnd_def)

lemma enumerate_backward_range:
  assumes "distinct ls" "chain_ok bpt ls" "\<forall>l \<in> set ls. recs bpt l \<noteq> []"
    and "a < length ls" "i < length (recs bpt (ls ! a))"
    and "b < length ls" "j < length (recs bpt (ls ! b))"
    and "offset bpt ls a + i \<le> offset bpt ls b + j"
  shows "enumerate_backward bpt \<lparr>currentLeaf = ls ! b, currentRecordIndex = int j,
            lastLeaf = ls ! a, lastRecordIndex = int i, isAtEnd = False\<rparr>
         = Some (rev (pairs (range_records (records_of bpt ls) (offset bpt ls a + i) (offset bpt ls b + j))))"
  using assms(6-8)
proof (induction k \<equiv> "offset bpt ls b + j - (offset bpt ls a + i)" arbitrary: b j)
  case 0
  then have eq: "offset bpt ls a + i = offset bpt ls b + j" by simp
  with pos_inj[OF assms(4,5) 0(2,3)] have ab: "a = b" "i = j" by auto
  have lr: "leafRecords bpt (ls ! b) = Some (recs bpt (ls ! b))"
    using 0(2) assms(3) by (auto intro: recs_nonempty_leafRecords)
  have R: "range_records (records_of bpt ls) (offset bpt ls a + i) (offset bpt ls b + j)
      = [recs bpt (ls ! b) ! j]"
    using records_of_nth[OF 0(2,3)] eq range_records_single[of "offset bpt ls b + j" "records_of bpt ls"]
    by simp
  have "enumerate_backward bpt \<lparr>currentLeaf = ls ! b, currentRecordIndex = int j,
            lastLeaf = ls ! b, lastRecordIndex = int j, isAtEnd = False\<rparr>
      = Some [(Key (recs bpt (ls ! b) ! j), Value (recs bpt (ls ! b) ! j))]"
    using enumerate_backward_step[OF _ Record_at[OF lr 0(3)] backward_Advance_end enumerate_backward_end]
    by simp
  then show ?case using R ab by (simp add: pairs_def)
next
  case (Suc k)
  let ?g1 = "offset bpt ls a + i" and ?g2 = "offset bpt ls b + j"
  have lt: "?g1 < ?g2" using Suc(2) by simp
  have lr: "leafRecords bpt (ls ! b) = Some (recs bpt (ls ! b))"
    using Suc(3) assms(3) by (auto intro: recs_nonempty_leafRecords)
  from pos_less_leaf[OF assms(4,5) Suc(3,4) lt] have ord: "a < b \<or> (a = b \<and> i < j)" .
  have neq: "\<not> (ls ! b = ls ! a \<and> int j = int i)"
    using ord assms(1) Suc(3) assms(4) by (auto simp: nth_eq_iff_index_eq)
  have R: "range_records (records_of bpt ls) ?g1 ?g2
      = range_records (records_of bpt ls) ?g1 (?g2 - 1) @ [recs bpt (ls ! b) ! j]"
    using records_of_nth[OF Suc(3,4)] lt range_records_snoc[of "offset bpt ls b + j" "records_of bpt ls" "offset bpt ls a + i"]
    by simp
  show ?case
  proof (cases "1 \<le> int j")
    case True
    then obtain j' where j': "j = Suc j'" by (cases j) auto
    have j'l: "j' < length (recs bpt (ls ! b))" using Suc(4) j' by simp
    have k: "k = offset bpt ls b + j' - ?g1" using Suc(2) j' by simp
    have le: "?g1 \<le> offset bpt ls b + j'" using lt j' by simp
    from Suc(1)[OF k Suc(3) j'l le]
    have IH: "enumerate_backward bpt \<lparr>currentLeaf = ls ! b, currentRecordIndex = int j - 1,
            lastLeaf = ls ! a, lastRecordIndex = int i, isAtEnd = False\<rparr>
         = Some (rev (pairs (range_records (records_of bpt ls) ?g1 (?g2 - 1))))"
      using j' by simp
    show ?thesis
      unfolding R
      using enumerate_backward_step[OF _ Record_at[OF lr Suc(4)] backward_Advance_within[OF neq True] IH]
      by (simp add: pairs_def)
  next
    case False
    then have j0: "j = 0" by simp
    have ab: "a < b" using ord j0 by auto
    then obtain b' where b': "b = Suc b'" by (cases b) auto
    have sb: "Suc b' < length ls" "b' < length ls" using Suc(3) b' by simp_all
    have pv: "leafPrev bpt (ls ! b) = Some (ls ! b')" using chain_ok_nth[OF assms(2) sb(1)] b' by simp
    have ne: "recs bpt (ls ! b') \<noteq> []" using assms(3) sb by auto
    have lr': "leafRecords bpt (ls ! b') = Some (recs bpt (ls ! b'))"
      using ne by (rule recs_nonempty_leafRecords)
    let ?j' = "length (recs bpt (ls ! b')) - 1"
    have j'l: "?j' < length (recs bpt (ls ! b'))" using ne by simp
    obtain m where m: "length (recs bpt (ls ! b')) = Suc m" using ne by (cases "recs bpt (ls ! b')") auto
    have g: "offset bpt ls b' + ?j' = ?g2 - 1" using j0 b' sb m by (simp add: offset_Suc)
    have k: "k = offset bpt ls b' + ?j' - ?g1" using Suc(2) g by simp
    have le: "?g1 \<le> offset bpt ls b' + ?j'" using lt g by simp
    from Suc(1)[OF k sb(2) j'l le]
    have IH: "enumerate_backward bpt \<lparr>currentLeaf = ls ! b', currentRecordIndex = int (length (recs bpt (ls ! b'))) - 1,
            lastLeaf = ls ! a, lastRecordIndex = int i, isAtEnd = False\<rparr>
         = Some (rev (pairs (range_records (records_of bpt ls) ?g1 (?g2 - 1))))"
      using g m by simp
    show ?thesis
      unfolding R
      using enumerate_backward_step[OF _ Record_at[OF lr Suc(4)] backward_Advance_prev[OF neq False pv lr'] IH]
      by (simp add: pairs_def)
  qed
qed

lemma shape_ok_leaf_deref:
  "shape_ok bpt n p \<Longrightarrow> l \<in> set (leaves bpt n p) \<Longrightarrow> \<exists>rs pv nx. deref bpt l = Some (Leaf rs pv nx)"
proof (induction n arbitrary: p)
  case 0
  then show ?case by (auto split: option.splits node.splits)
next
  case (Suc n)
  then obtain cs where cs: "deref bpt p = Some (NonLeaf cs)"
    "list_all (\<lambda>c. shape_ok bpt n (CValue c)) cs"
    by (auto split: option.splits node.splits)
  with Suc.prems(2) obtain c where "c \<in> set cs" "l \<in> set (leaves bpt n (CValue c))" by auto
  with cs(2) Suc.IH show ?case by (auto simp: list_all_iff)
qed

lemma shape_ok_leafRecords:
  "shape_ok bpt n p \<Longrightarrow> l \<in> set (leaves bpt n p) \<Longrightarrow> leafRecords bpt l = Some (recs bpt l)"
  using shape_ok_leaf_deref[of bpt n p l] by auto

lemma sorted_keys_nth:
  assumes "sorted_wrt key_less ks" "list_all is_user ks" "i < j" "j < length ks"
  shows "\<exists>a b. ks ! i = KUser a \<and> ks ! j = KUser b \<and> a < b"
proof -
  have "key_less (ks ! i) (ks ! j)" using assms(1,3,4) by (simp add: sorted_wrt_nth_less)
  then show ?thesis by (cases "ks ! i"; cases "ks ! j") auto
qed

lemma is_user_nth:
  assumes "list_all is_user ks" "i < length ks"
  shows "\<exists>a. ks ! i = KUser a"
proof -
  have "is_user (ks ! i)" using assms by (simp add: list_all_length)
  then show ?thesis by (cases "ks ! i") auto
qed

lemma wf_bpt_height: "wf_bpt bpt \<Longrightarrow> height bpt = int (tree_level bpt) + 1"
  by (simp add: wf_bpt_def tree_level_def)

lemma wf_bpt_leaves_nonempty: "wf_bpt bpt \<Longrightarrow> tree_leaves bpt \<noteq> []"
  by (simp add: wf_bpt_def tree_leaves_def shape_ok_leaves_nonempty)

lemma wf_bpt_leafRecords: "wf_bpt bpt \<Longrightarrow> l \<in> set (tree_leaves bpt) \<Longrightarrow> leafRecords bpt l = Some (recs bpt l)"
  unfolding wf_bpt_def tree_leaves_def by (blast intro: shape_ok_leafRecords)

lemma wf_bpt_single_leaf: "wf_bpt bpt \<Longrightarrow> height bpt = 1 \<Longrightarrow> tree_leaves bpt = [root bpt]"
  by (simp add: tree_leaves_def tree_level_def)

lemma wf_bpt_all_nonempty:
  assumes "wf_bpt bpt" "tree_records bpt \<noteq> []"
  shows "\<forall>l \<in> set (tree_leaves bpt). recs bpt l \<noteq> []"
proof (cases "1 < height bpt")
  case True
  with assms(1) show ?thesis by (simp add: wf_bpt_def list_all_iff)
next
  case False
  with assms(1) have "height bpt = 1" by (simp add: wf_bpt_def)
  with assms show ?thesis by (simp add: wf_bpt_single_leaf tree_records_def records_of_def)
qed

lemma wf_bpt_empty:
  assumes "wf_bpt bpt" "tree_records bpt = []"
  shows "height bpt = 1" "tree_leaves bpt = [root bpt]" "recs bpt (root bpt) = []" "tail bpt = root bpt"
proof -
  have "\<not> 1 < height bpt"
  proof
    assume h: "1 < height bpt"
    with assms(1) have "\<forall>l \<in> set (tree_leaves bpt). recs bpt l \<noteq> []" by (simp add: wf_bpt_def list_all_iff)
    moreover have "hd (tree_leaves bpt) \<in> set (tree_leaves bpt)" using wf_bpt_leaves_nonempty[OF assms(1)] by simp
    ultimately show False using assms(2) unfolding tree_records_def records_of_def by auto
  qed
  with assms(1) show h: "height bpt = 1" by (simp add: wf_bpt_def)
  then show l: "tree_leaves bpt = [root bpt]" using assms(1) by (rule wf_bpt_single_leaf[rotated])
  with assms(2) show "recs bpt (root bpt) = []" by (simp add: tree_records_def records_of_def)
  from l assms(1) show "tail bpt = root bpt" by (simp add: wf_bpt_def)
qed

lemma findRecord_sentinel:
  assumes "wf_bpt bpt"
  shows "\<exists>rp'. findRecord bpt (KMinMax x) = Some (rp', recs bpt (pick x (tree_leaves bpt)) \<noteq> [])
         \<and> LocateRecord_path rp'
           = Some (pick x (tree_leaves bpt),
               if recs bpt (pick x (tree_leaves bpt)) = [] \<or> isKeyMin x then 0
               else int (length (recs bpt (pick x (tree_leaves bpt)))) - 1)"
proof -
  have "shape_ok bpt (tree_level bpt) (root bpt)" using assms by (simp add: wf_bpt_def)
  moreover have "height bpt = int (length ([] :: recordPath)) + 1 + int (tree_level bpt)"
    using wf_bpt_height[OF assms] by simp
  ultimately show ?thesis
    unfolding findRecord_def tree_leaves_def by (rule findRecord_loop_sentinel)
qed

lemma isKeyMinMax_simps [simp]:
  "isKeyMinMax (KMinMax x)" "\<not> isKeyMinMax (KUser k)" "\<not> isKeyMinMax KNil"
  "isKeyMinMax KeyMin" "isKeyMinMax KeyMax"
  by (simp_all add: isKeyMinMax_def KeyMin_def KeyMax_def)

lemma sameKeyMinMax_simps [simp]:
  "sameKeyMinMax (KMinMax x) (KMinMax y) = (x = y)" "\<not> sameKeyMinMax (KUser k) b" "\<not> sameKeyMinMax a (KUser k)"
  by (auto simp: sameKeyMinMax_def split: key.splits)

lemma findAndLocateRecords_all_empty:
  assumes "wf_bpt bpt" "tree_records bpt = []"
  shows "findAndLocateRecords bpt KeyMin KeyMax = Some (0, 0, 0, 0, False)"
proof -
  note e = wf_bpt_empty[OF assms]
  from findRecord_sentinel[OF assms(1), of "- 1"] e obtain rp where
    rp: "findRecord bpt KeyMin = Some (rp, False)" "LocateRecord_path rp = Some (root bpt, 0)"
    by (auto simp: KeyMin_def pick_def)
  have lr: "leafRecords bpt (root bpt) = Some []"
    using wf_bpt_leafRecords[OF assms(1), of "root bpt"] e by simp
  show ?thesis
    unfolding findAndLocateRecords_def
    using rp lr e by (simp add: KeyMin_def KeyMax_def)
qed

lemma findAndLocateRecords_all:
  assumes "wf_bpt bpt" "comparer_ok (keyComparer bpt)" "tree_records bpt \<noteq> []"
  shows "findAndLocateRecords bpt KeyMin KeyMax
    = Some (hd (tree_leaves bpt), 0, last (tree_leaves bpt),
            int (length (recs bpt (last (tree_leaves bpt)))) - 1, True)"
proof -
  let ?ls = "tree_leaves bpt" and ?R = "tree_records bpt"
  have ne: "\<forall>l \<in> set ?ls. recs bpt l \<noteq> []" using assms(1,3) by (rule wf_bpt_all_nonempty)
  have lsne: "?ls \<noteq> []" using assms(1) by (rule wf_bpt_leaves_nonempty)
  let ?l0 = "hd ?ls" and ?lm = "last ?ls"
  have l0: "?l0 \<in> set ?ls" and lm: "?lm \<in> set ?ls" using lsne by simp_all
  have r0: "recs bpt ?l0 \<noteq> []" and rm: "recs bpt ?lm \<noteq> []" using ne l0 lm by auto
  from findRecord_sentinel[OF assms(1), of "- 1"] r0 obtain rp1 where
    rp1: "findRecord bpt KeyMin = Some (rp1, True)" "LocateRecord_path rp1 = Some (?l0, 0)"
    by (auto simp: KeyMin_def pick_def isKeyMin_def)
  from findRecord_sentinel[OF assms(1), of 1] rm obtain rp2 where
    rp2: "findRecord bpt KeyMax = Some (rp2, True)"
      "LocateRecord_path rp2 = Some (?lm, int (length (recs bpt ?lm)) - 1)"
    by (auto simp: KeyMax_def pick_def isKeyMin_def)
  have lr0: "leafRecords bpt ?l0 = Some (recs bpt ?l0)" and lrm: "leafRecords bpt ?lm = Some (recs bpt ?lm)"
    using wf_bpt_leafRecords[OF assms(1)] l0 lm by auto
  \<comment> \<open>the first and the last record\<close>
  have R0: "?R ! 0 = hd (recs bpt ?l0)"
    using records_of_nth(2)[of 0 ?ls 0 bpt] lsne r0 by (simp add: tree_records_def hd_conv_nth)
  let ?m = "length ?ls - 1" and ?j = "length (recs bpt ?lm) - 1"
  have m: "?m < length ?ls" "?ls ! ?m = ?lm" using lsne by (simp_all add: last_conv_nth)
  have j: "?j < length (recs bpt (?ls ! ?m))" using rm m by simp
  have off: "offset bpt ?ls ?m + ?j = length ?R - 1"
  proof -
    have "offset bpt ?ls (Suc ?m) = offset bpt ?ls ?m + length (recs bpt ?lm)"
      using offset_Suc[OF m(1), of bpt] m(2) by simp
    moreover have "Suc ?m = length ?ls" using lsne by simp
    moreover obtain q where "length (recs bpt ?lm) = Suc q" using rm by (cases "recs bpt ?lm") auto
    ultimately show ?thesis by (simp add: offset_length tree_records_def)
  qed
  have Rm: "?R ! (length ?R - 1) = last (recs bpt ?lm)"
    using records_of_nth(2)[OF m(1) j] off m(2) rm by (simp add: tree_records_def last_conv_nth)
  have us: "list_all is_user (map Key ?R)" and so: "sorted_wrt key_less (map Key ?R)"
    using assms(1) by (simp_all add: wf_bpt_def)
  obtain k0 where k0: "Key (hd (recs bpt ?l0)) = KUser k0"
    using is_user_nth[OF us, of 0] assms(3) R0 by auto
  obtain km where km: "Key (last (recs bpt ?lm)) = KUser km"
    using is_user_nth[OF us, of "length ?R - 1"] assms(3) Rm by auto
  obtain d where d: "keyComparer bpt (KUser k0) (KUser km) = Some d" "d < 0 \<longleftrightarrow> k0 < km" "d = 0 \<longleftrightarrow> k0 = km"
    using assms(2) unfolding comparer_ok_def by blast
  have le: "k0 \<le> km" and single: "k0 = km \<Longrightarrow> length ?R = 1"
  proof -
    show "k0 \<le> km"
    proof (cases "length ?R = 1")
      case True
      with R0 Rm k0 km show ?thesis by simp
    next
      case False
      with assms(3) have "0 < length ?R - 1" "length ?R - 1 < length (map Key ?R)"
        by (cases ?R; simp)+
      from sorted_keys_nth[OF so us this] R0 Rm k0 km assms(3) show ?thesis by auto
    qed
    show "length ?R = 1" if "k0 = km"
    proof (rule ccontr)
      assume "length ?R \<noteq> 1"
      with assms(3) have "0 < length ?R - 1" "length ?R - 1 < length (map Key ?R)"
        by (cases ?R; simp)+
      from sorted_keys_nth[OF so us this] R0 Rm k0 km assms(3) that show False by auto
    qed
  qed
  have same: "?l0 = ?lm \<and> int (length (recs bpt ?lm)) - 1 = 0" if "k0 = km"
  proof -
    from single[OF that] have one: "length ?R = 1" .
    have "offset bpt ?ls 0 + 0 = offset bpt ?ls ?m + ?j" using off one by simp
    from pos_inj[OF _ _ m(1) j this] lsne r0 m(2)
    have "0 = ?m \<and> 0 = ?j" by (simp add: hd_conv_nth)
    then show ?thesis using m(2) lsne rm by (cases "recs bpt ?lm") (auto simp: hd_conv_nth)
  qed
  have i0: "index (recs bpt ?l0) 0 = Some (hd (recs bpt ?l0))" using r0 by simp
  have im: "index (recs bpt ?lm) (int (length (recs bpt ?lm)) - 1) = Some (last (recs bpt ?lm))"
    using rm by simp
  show ?thesis
  proof (cases "k0 = km")
    case True
    with d have d0: "d = 0" by simp
    from same[OF True] have s: "?l0 = ?lm" "int (length (recs bpt ?lm)) - 1 = 0" by auto
    show ?thesis
      unfolding findAndLocateRecords_def
      using rp1 rp2 lr0 lrm i0 im k0 km d(1) d0 s
      by (simp add: KeyMin_def KeyMax_def)
  next
    case False
    with d le have d0: "d < 0" by simp
    show ?thesis
      unfolding findAndLocateRecords_def
      using rp1 rp2 lr0 lrm i0 im k0 km d(1) d0
      by (simp add: KeyMin_def KeyMax_def)
  qed
qed

subsection \<open>The whole range\<close>

text \<open>
  C2 as stated: \<open>SearchBackward(KeyMax, KeyMin)\<close> enumerates the records of the tree in
  descending order. With the keys 1, 2, 3 in the tree it enumerates nothing:
  \<open>findAndLocateRecords\<close> takes its first argument as the lower bound, finds the last
  record for it and the first record for the upper bound, compares their keys and returns
  the empty range.
\<close>

theorem C2_counterexample:
  "(case Init 5 intKeyComparer \<bind> (\<lambda>bpt. apply_operations bpt (adds_upto 3)) of
      Some (results, bpt) \<Rightarrow>
        (SearchForward bpt KeyMin KeyMax \<bind> enumerate_forward bpt)
          = Some [(KUser 1, 10), (KUser 2, 20), (KUser 3, 30)]
        \<and> (SearchBackward bpt KeyMax KeyMin \<bind> enumerate_backward bpt) = Some []
    | None \<Rightarrow> False)"
  by code_simp

lemma range_records_all: "R \<noteq> [] \<Longrightarrow> range_records R 0 (length R - Suc 0) = R"
  by (cases R) (simp_all add: range_records_def)

lemma comparer_ok_intKeyComparer: "comparer_ok intKeyComparer"
  by (auto simp: comparer_ok_def)

lemma last_position:
  assumes "ls \<noteq> []" "recs bpt (last ls) \<noteq> []"
  shows "offset bpt ls (length ls - 1) + (length (recs bpt (last ls)) - 1) = length (records_of bpt ls) - 1"
proof -
  let ?m = "length ls - 1"
  have m: "?m < length ls" "ls ! ?m = last ls" using assms(1) by (simp_all add: last_conv_nth)
  have "offset bpt ls (Suc ?m) = offset bpt ls ?m + length (recs bpt (last ls))"
    using offset_Suc[OF m(1), of bpt] m(2) by simp
  moreover have "Suc ?m = length ls" using assms(1) by simp
  moreover obtain q where "length (recs bpt (last ls)) = Suc q" using assms(2) by (cases "recs bpt (last ls)") auto
  ultimately show ?thesis by (simp add: offset_length)
qed

text \<open>
  C2 amended: for every tree that satisfies the invariants, \<open>SearchForward(KeyMin, KeyMax)\<close>
  enumerates exactly the records of the tree, in ascending key order, and
  \<open>SearchBackward(KeyMin, KeyMax)\<close>, with the bounds in the same order, enumerates the same
  records in descending key order: the second enumeration is the reverse of the first.
\<close>

theorem C2_full_range:
  assumes "wf_bpt bpt" "comparer_ok (keyComparer bpt)"
  shows "(SearchForward bpt KeyMin KeyMax \<bind> enumerate_forward bpt) = Some (pairs (tree_records bpt))
    \<and> (SearchBackward bpt KeyMin KeyMax \<bind> enumerate_backward bpt)
        = Some (rev (pairs (tree_records bpt)))
    \<and> sorted_wrt key_less (map fst (pairs (tree_records bpt)))"
proof (intro conjI)
  show "sorted_wrt key_less (map fst (pairs (tree_records bpt)))"
    using assms(1) by (simp add: wf_bpt_def pairs_def comp_def)
next
  show "(SearchForward bpt KeyMin KeyMax \<bind> enumerate_forward bpt) = Some (pairs (tree_records bpt))"
  proof (cases "tree_records bpt = []")
    case True
    then show ?thesis
      using findAndLocateRecords_all_empty[OF assms(1) True]
      by (simp add: SearchForward_def iterator_init_def enumerate_forward_end pairs_def)
  next
    case False
    let ?ls = "tree_leaves bpt"
    have ne: "\<forall>l \<in> set ?ls. recs bpt l \<noteq> []" using assms(1) False by (rule wf_bpt_all_nonempty)
    have lsne: "?ls \<noteq> []" using assms(1) by (rule wf_bpt_leaves_nonempty)
    have d: "distinct ?ls" and c: "chain_ok bpt ?ls" using assms(1) by (simp_all add: wf_bpt_def)
    let ?m = "length ?ls - 1" and ?j = "length (recs bpt (last ?ls)) - 1"
    have m: "?m < length ?ls" "?ls ! ?m = last ?ls" using lsne by (simp_all add: last_conv_nth)
    have j: "?j < length (recs bpt (?ls ! ?m))" using ne m lsne by simp
    have z: "0 < length ?ls" "0 < length (recs bpt (?ls ! 0))" using lsne ne by (auto simp: hd_conv_nth)
    have off: "offset bpt ?ls ?m + ?j = length (tree_records bpt) - 1"
      using last_position[OF lsne, of bpt] ne lsne by (simp add: tree_records_def)
    have "enumerate_forward bpt \<lparr>currentLeaf = ?ls ! 0, currentRecordIndex = int 0,
            lastLeaf = ?ls ! ?m, lastRecordIndex = int ?j, isAtEnd = False\<rparr>
         = Some (pairs (range_records (records_of bpt ?ls) (offset bpt ?ls 0 + 0) (offset bpt ?ls ?m + ?j)))"
      by (rule enumerate_forward_range[OF d c ne m(1) j z]) simp
    moreover have "int ?j = int (length (recs bpt (last ?ls))) - 1"
      using ne lsne by (cases "recs bpt (last ?ls)") auto
    ultimately show ?thesis
      using findAndLocateRecords_all[OF assms False] off m(2) lsne False
      by (simp add: SearchForward_def iterator_init_def hd_conv_nth range_records_all tree_records_def)
  qed
next
  show "(SearchBackward bpt KeyMin KeyMax \<bind> enumerate_backward bpt) = Some (rev (pairs (tree_records bpt)))"
  proof (cases "tree_records bpt = []")
    case True
    then show ?thesis
      using findAndLocateRecords_all_empty[OF assms(1) True]
      by (simp add: SearchBackward_def iterator_init_def enumerate_backward_end pairs_def)
  next
    case False
    let ?ls = "tree_leaves bpt"
    have ne: "\<forall>l \<in> set ?ls. recs bpt l \<noteq> []" using assms(1) False by (rule wf_bpt_all_nonempty)
    have lsne: "?ls \<noteq> []" using assms(1) by (rule wf_bpt_leaves_nonempty)
    have d: "distinct ?ls" and c: "chain_ok bpt ?ls" using assms(1) by (simp_all add: wf_bpt_def)
    let ?m = "length ?ls - 1" and ?j = "length (recs bpt (last ?ls)) - 1"
    have m: "?m < length ?ls" "?ls ! ?m = last ?ls" using lsne by (simp_all add: last_conv_nth)
    have j: "?j < length (recs bpt (?ls ! ?m))" using ne m lsne by simp
    have z: "0 < length ?ls" "0 < length (recs bpt (?ls ! 0))" using lsne ne by (auto simp: hd_conv_nth)
    have off: "offset bpt ?ls ?m + ?j = length (tree_records bpt) - 1"
      using last_position[OF lsne, of bpt] ne lsne by (simp add: tree_records_def)
    have "enumerate_backward bpt \<lparr>currentLeaf = ?ls ! ?m, currentRecordIndex = int ?j,
            lastLeaf = ?ls ! 0, lastRecordIndex = int 0, isAtEnd = False\<rparr>
         = Some (rev (pairs (range_records (records_of bpt ?ls) (offset bpt ?ls 0 + 0) (offset bpt ?ls ?m + ?j))))"
      by (rule enumerate_backward_range[OF d c ne z m(1) j]) simp
    moreover have "int ?j = int (length (recs bpt (last ?ls))) - 1"
      using ne lsne by (cases "recs bpt (last ?ls)") auto
    ultimately show ?thesis
      using findAndLocateRecords_all[OF assms False] off m(2) lsne False
      by (simp add: SearchBackward_def iterator_init_def hd_conv_nth range_records_all tree_records_def)
  qed
qed

lemma example_tree_built:
  "(case Init 5 intKeyComparer \<bind> (\<lambda>bpt. apply_operations bpt (adds_upto 13)) of
      Some (results, bpt) \<Rightarrow>
        maxDegree bpt = maxDegree example_tree \<and> tail bpt = tail example_tree
        \<and> head bpt = head example_tree \<and> root bpt = root example_tree
        \<and> height bpt = height example_tree \<and> heap bpt = heap example_tree
    | None \<Rightarrow> False)"
  by code_simp

lemma wf_bpt_example_tree: "wf_bpt example_tree"
  by code_simp

lemma tree_records_example_tree:
  "pairs (tree_records example_tree) = map (\<lambda>k. (KUser k, 10 * k)) [1, 2, 3, 4, 5, 6, 7, 8, 9, 10, 11, 12, 13]"
  by code_simp

theorem C2_full_range_witness:
  "wf_bpt example_tree \<and> comparer_ok (keyComparer example_tree)
   \<and> (SearchForward example_tree KeyMin KeyMax \<bind> enumerate_forward example_tree)
       = Some (map (\<lambda>k. (KUser k, 10 * k)) [1, 2, 3, 4, 5, 6, 7, 8, 9, 10, 11, 12, 13])
   \<and> (SearchBackward example_tree KeyMin KeyMax \<bind> enumerate_backward example_tree)
       = Some (map (\<lambda>k. (KUser k, 10 * k)) [13, 12, 11, 10, 9, 8, 7, 6, 5, 4, 3, 2, 1])"
proof -
  have c: "comparer_ok (keyComparer example_tree)"
    by (simp add: example_tree_def comparer_ok_intKeyComparer)
  from C2_full_range[OF wf_bpt_example_tree c] show ?thesis
    using wf_bpt_example_tree c by (simp add: tree_records_example_tree)
qed

subsection \<open>Sentinels as the key of a point operation\<close>

lemma deref_store: "deref (store bpt p n) q = (if q = p \<and> 0 < p \<and> p \<le> length (heap bpt) then Some n else deref bpt q)"
  by (cases p; cases q) (auto simp: deref_def store_def nth_list_update)

lemma setRecords_Some:
  "deref bpt p = Some (Leaf rs pv nx) \<Longrightarrow> setRecords bpt p rs' = Some (store bpt p (Leaf rs' pv nx))"
  by (simp add: setRecords_def)

lemma deref_valid: "deref bpt p = Some n \<Longrightarrow> 0 < p \<and> p \<le> length (heap bpt)"
  by (auto simp: deref_def split: if_splits)

lemma leaves_store_leaf:
  assumes "deref bpt p = Some (Leaf rs pv nx)"
  shows "leaves (store bpt p (Leaf rs' pv' nx')) n q = leaves bpt n q"
proof (induction n arbitrary: q)
  case 0
  show ?case by simp
next
  case (Suc n)
  show ?case
    using assms Suc by (cases "q = p") (auto simp: deref_store split: option.splits node.splits)
qed

lemma shape_ok_store_leaf:
  assumes "deref bpt p = Some (Leaf rs pv nx)"
  shows "shape_ok (store bpt p (Leaf rs' pv' nx')) n q = shape_ok bpt n q"
proof (induction n arbitrary: q)
  case 0
  show ?case using assms deref_valid[OF assms] by (auto simp: deref_store split: option.splits node.splits)
next
  case (Suc n)
  show ?case
    using assms Suc by (cases "q = p") (auto simp: deref_store list_all_iff split: option.splits node.splits)
qed

lemma recs_store_leaf:
  assumes "deref bpt p = Some (Leaf rs pv nx)"
  shows "recs (store bpt p (Leaf rs' pv' nx')) l = (if l = p then rs' else recs bpt l)"
  using assms deref_valid[OF assms] by (auto simp: recs_def leafRecords_def deref_store)

lemma store_fields [simp]:
  "root (store bpt p n) = root bpt" "height (store bpt p n) = height bpt"
  "tail (store bpt p n) = tail bpt" "head (store bpt p n) = head bpt"
  "maxDegree (store bpt p n) = maxDegree bpt" "keyComparer (store bpt p n) = keyComparer bpt"
  by (simp_all add: store_def)

lemma concat_update:
  assumes "a < length xss" "i < length (xss ! a)"
  shows "concat (xss[a := (xss ! a)[i := y]]) = (concat xss)[length (concat (take a xss)) + i := y]"
proof -
  have xs: "xss = take a xss @ xss ! a # drop (Suc a) xss" using assms(1) by (simp add: id_take_nth_drop)
  have "xss[a := (xss ! a)[i := y]] = take a xss @ (xss ! a)[i := y] # drop (Suc a) xss"
    using assms(1) by (simp add: upd_conv_take_nth_drop)
  then have "concat (xss[a := (xss ! a)[i := y]]) = concat (take a xss) @ (xss ! a)[i := y] @ concat (drop (Suc a) xss)"
    by simp
  moreover have "concat xss = concat (take a xss) @ xss ! a @ concat (drop (Suc a) xss)"
    by (subst xs) simp
  ultimately show ?thesis using assms(2) by (simp add: list_update_append)
qed

lemma records_of_store_leaf:
  assumes "deref bpt (ls ! a) = Some (Leaf rs pv nx)" "distinct ls" "a < length ls" "i < length rs"
  shows "records_of (store bpt (ls ! a) (Leaf (rs[i := y]) pv' nx')) ls
    = (records_of bpt ls)[offset bpt ls a + i := y]"
proof -
  have r: "recs bpt (ls ! a) = rs" using assms(1) by simp
  have "map (recs (store bpt (ls ! a) (Leaf (rs[i := y]) pv' nx'))) ls
      = (map (recs bpt) ls)[a := (map (recs bpt) ls ! a)[i := y]]"
  proof (rule nth_equalityI)
    show "length (map (recs (store bpt (ls ! a) (Leaf (rs[i := y]) pv' nx'))) ls)
        = length ((map (recs bpt) ls)[a := (map (recs bpt) ls ! a)[i := y]])" by simp
  next
    fix b assume "b < length (map (recs (store bpt (ls ! a) (Leaf (rs[i := y]) pv' nx'))) ls)"
    then have b: "b < length ls" by simp
    show "map (recs (store bpt (ls ! a) (Leaf (rs[i := y]) pv' nx'))) ls ! b
        = (map (recs bpt) ls)[a := (map (recs bpt) ls ! a)[i := y]] ! b"
      using b assms(2,3) r
      by (auto simp: recs_store_leaf[OF assms(1)] nth_list_update nth_eq_iff_index_eq)
  qed
  then show ?thesis
    using concat_update[of a "map (recs bpt) ls" i y] assms(3,4) r
    by (simp add: records_of_def offset_def take_map)
qed

lemma R_first:
  assumes "ls \<noteq> []" "recs bpt (hd ls) \<noteq> []"
  shows "records_of bpt ls ! 0 = hd (recs bpt (hd ls))"
  using records_of_nth(2)[of 0 ls 0 bpt] assms by (simp add: hd_conv_nth)

lemma R_last:
  assumes "ls \<noteq> []" "recs bpt (last ls) \<noteq> []"
  shows "records_of bpt ls ! (length (records_of bpt ls) - 1) = last (recs bpt (last ls))"
proof -
  let ?m = "length ls - 1" and ?j = "length (recs bpt (last ls)) - 1"
  have m: "?m < length ls" "ls ! ?m = last ls" using assms(1) by (simp_all add: last_conv_nth)
  have j: "?j < length (recs bpt (ls ! ?m))" using assms(2) m by simp
  show ?thesis
    using records_of_nth(2)[OF m(1) j] last_position[OF assms] m(2) assms(2)
    by (simp add: last_conv_nth)
qed

lemma located_sentinel:
  assumes "wf_bpt bpt" "tree_records bpt \<noteq> []"
  shows "\<exists>rp a i. findRecord bpt (KMinMax x) = Some (rp, True)
      \<and> a < length (tree_leaves bpt) \<and> i < length (recs bpt (tree_leaves bpt ! a))
      \<and> offset bpt (tree_leaves bpt) a + i = sentinel_position x (tree_records bpt)
      \<and> locatedRecord bpt rp
        = Some (tree_leaves bpt ! a, int i, recs bpt (tree_leaves bpt ! a),
                tree_records bpt ! sentinel_position x (tree_records bpt))"
proof -
  let ?ls = "tree_leaves bpt" and ?R = "tree_records bpt"
  have ne: "\<forall>l \<in> set ?ls. recs bpt l \<noteq> []" using assms by (rule wf_bpt_all_nonempty)
  have lsne: "?ls \<noteq> []" using assms(1) by (rule wf_bpt_leaves_nonempty)
  let ?l = "pick x ?ls"
  have lin: "?l \<in> set ?ls" using lsne by (simp add: pick_def)
  then have rne: "recs bpt ?l \<noteq> []" using ne by blast
  have lr: "leafRecords bpt ?l = Some (recs bpt ?l)" using wf_bpt_leafRecords[OF assms(1) lin] .
  from findRecord_sentinel[OF assms(1), of x] rne obtain rp where
    rp: "findRecord bpt (KMinMax x) = Some (rp, True)"
      "LocateRecord_path rp = Some (?l, if isKeyMin x then 0 else int (length (recs bpt ?l)) - 1)"
    by auto
  show ?thesis
  proof (cases "isKeyMin x")
    case True
    have "locatedRecord bpt rp = Some (?ls ! 0, int 0, recs bpt (?ls ! 0), ?R ! 0)"
      using rp(2) True lr rne lsne R_first[of ?ls bpt]
      by (simp add: locatedRecord_def pick_def hd_conv_nth tree_records_def)
    moreover have "0 < length ?ls" "0 < length (recs bpt (?ls ! 0))" using lsne rne True
      by (simp_all add: pick_def hd_conv_nth)
    ultimately show ?thesis using rp(1) True
      by (intro exI[of _ rp] exI[of _ 0]) (simp add: sentinel_position_def)
  next
    case False
    let ?m = "length ?ls - 1" and ?j = "length (recs bpt (last ?ls)) - 1"
    have m: "?m < length ?ls" "?ls ! ?m = last ?ls" using lsne by (simp_all add: last_conv_nth)
    have l: "?l = last ?ls" using False by (simp add: pick_def)
    have j: "?j < length (recs bpt (?ls ! ?m))" using rne m l by simp
    have ij: "int ?j = int (length (recs bpt (last ?ls))) - 1"
      using rne l by (cases "recs bpt (last ?ls)") auto
    have off: "offset bpt ?ls ?m + ?j = length ?R - 1"
      using last_position[OF lsne, of bpt] rne l by (simp add: tree_records_def)
    have "locatedRecord bpt rp = Some (?ls ! ?m, int ?j, recs bpt (?ls ! ?m), ?R ! (length ?R - 1))"
      using rp(2) False lr rne l m(2) ij R_last[OF lsne, of bpt]
      by (simp add: locatedRecord_def tree_records_def)
    then show ?thesis using rp(1) False m(1) j off
      by (intro exI[of _ rp] exI[of _ ?m] exI[of _ ?j]) (simp add: sentinel_position_def)
  qed
qed

text \<open>
  On a non-empty tree that satisfies the invariants the sentinels are resolved to records
  of the tree: \<open>AddRecord\<close> with a sentinel key stores nothing, it returns the value of the
  record with the smallest key (for \<open>KeyMin\<close>) or the largest key (for \<open>KeyMax\<close>)
  together with false and leaves the tree as it is; \<open>AddOrUpdateRecord\<close> with a sentinel
  key replaces the value of that record, keeps its key, and returns the previous value
  together with false. In both cases every key in the tree is still a key of the caller.
\<close>

lemma sentinel_on_nonempty_tree:
  assumes "wf_bpt bpt" "tree_records bpt \<noteq> []"
  shows "AddRecord bpt (KMinMax x) v
      = Some ((Some (Value (tree_records bpt ! sentinel_position x (tree_records bpt))), False), bpt)
    \<and> (\<exists>bpt'. AddOrUpdateRecord bpt (KMinMax x) v
          = Some ((Some (Value (tree_records bpt ! sentinel_position x (tree_records bpt))), False), bpt')
        \<and> tree_records bpt'
          = (tree_records bpt)[sentinel_position x (tree_records bpt)
              := Rcd (Key (tree_records bpt ! sentinel_position x (tree_records bpt))) v]
        \<and> list_all is_user (map Key (tree_records bpt')))"
proof -
  let ?ls = "tree_leaves bpt" and ?R = "tree_records bpt"
  let ?g = "sentinel_position x ?R"
  from located_sentinel[OF assms, of x] obtain rp a i where
    f: "findRecord bpt (KMinMax x) = Some (rp, True)"
    and a: "a < length ?ls" and i: "i < length (recs bpt (?ls ! a))"
    and off: "offset bpt ?ls a + i = ?g"
    and lo: "locatedRecord bpt rp = Some (?ls ! a, int i, recs bpt (?ls ! a), ?R ! ?g)"
    by blast
  have add: "AddRecord bpt (KMinMax x) v = Some ((Some (Value (?R ! ?g)), False), bpt)"
    using f lo by (simp add: AddRecord_def)
  have sh: "shape_ok bpt (tree_level bpt) (root bpt)" and d: "distinct ?ls"
    and us: "list_all is_user (map Key ?R)"
    using assms(1) by (simp_all add: wf_bpt_def)
  have "?ls ! a \<in> set (leaves bpt (tree_level bpt) (root bpt))" using a by (simp add: tree_leaves_def)
  from shape_ok_leaf_deref[OF sh this] obtain rs pv nx where
    dr: "deref bpt (?ls ! a) = Some (Leaf rs pv nx)" by blast
  then have rs: "recs bpt (?ls ! a) = rs" by simp
  define r' where "r' = Rcd (Key (?R ! ?g)) v"
  define bpt' where "bpt' = store bpt (?ls ! a) (Leaf (rs[i := r']) pv nx)"
  have upd: "AddOrUpdateRecord bpt (KMinMax x) v = Some ((Some (Value (?R ! ?g)), False), bpt')"
    using f lo i rs setRecords_Some[OF dr]
    by (simp add: AddOrUpdateRecord_def assign_def r'_def bpt'_def)
  have lv: "tree_leaves bpt' = ?ls"
    using leaves_store_leaf[OF dr, of "rs[i := r']" pv nx "tree_level bpt" "root bpt"]
    by (simp add: tree_leaves_def tree_level_def bpt'_def)
  have "tree_records bpt' = records_of bpt' ?ls"
    by (simp only: tree_records_def lv)
  also have "\<dots> = (records_of bpt ?ls)[offset bpt ?ls a + i := r']"
    using records_of_store_leaf[OF dr d a, of i r' pv nx] i rs by (simp add: bpt'_def)
  finally have R': "tree_records bpt' = ?R[?g := r']"
    by (simp only: off tree_records_def)
  have g: "?g < length ?R" using records_of_nth(1)[OF a i] off by (simp add: tree_records_def)
  have "map Key (?R[?g := r']) = map Key ?R"
    using g by (simp add: map_update list_update_same_conv r'_def)
  with us R' have "list_all is_user (map Key (tree_records bpt'))" by simp
  with add upd R' show ?thesis unfolding r'_def by blast
qed

lemma sentinel_on_example_tree:
  "wf_bpt example_tree \<and> tree_records example_tree \<noteq> []
   \<and> AddRecord example_tree KeyMin 7 = Some ((Some 10, False), example_tree)
   \<and> AddRecord example_tree KeyMax 7 = Some ((Some 130, False), example_tree)
   \<and> (\<exists>bpt'. AddOrUpdateRecord example_tree KeyMax 7 = Some ((Some 130, False), bpt')
        \<and> pairs (tree_records bpt')
          = map (\<lambda>k. (KUser k, 10 * k)) [1, 2, 3, 4, 5, 6, 7, 8, 9, 10, 11, 12] @ [(KUser 13, 7)])"
proof -
  have ne: "tree_records example_tree \<noteq> []" by code_simp
  have p: "sentinel_position (- 1) (tree_records example_tree) = 0"
    "sentinel_position 1 (tree_records example_tree) = 12"
    by code_simp+
  have r: "tree_records example_tree = map (\<lambda>k. Rcd (KUser k) (10 * k)) [1, 2, 3, 4, 5, 6, 7, 8, 9, 10, 11, 12, 13]"
    by code_simp
  from sentinel_on_nonempty_tree[OF wf_bpt_example_tree ne, of "- 1" 7]
    sentinel_on_nonempty_tree[OF wf_bpt_example_tree ne, of 1 7]
  show ?thesis
    using wf_bpt_example_tree ne unfolding p
    by (auto simp: KeyMin_def KeyMax_def r pairs_def)
qed


subsection \<open>Searching for a key of the caller\<close>

lemma quot_nonneg: "0 \<le> a \<Longrightarrow> 0 < b \<Longrightarrow> quot a b = a div b"
  by (cases "a = 0") (simp_all add: quot_def sgn_if)

lemma comparer_ok_cases:
  assumes "comparer_ok c"
  obtains d where "c (KUser a) (KUser b) = Some d" "d < 0 \<longleftrightarrow> a < b" "d = 0 \<longleftrightarrow> a = b"
  using assms unfolding comparer_ok_def by blast

lemma key_less_trans: "key_less a b \<Longrightarrow> key_less b c \<Longrightarrow> key_less a c"
  by (cases a; cases b; cases c) auto

lemma key_less_irrefl: "\<not> key_less a a"
  by (cases a) auto

lemma key_less_asym: "key_less a b \<Longrightarrow> \<not> key_less b a"
  by (cases a; cases b) auto

lemma locate_loop_spec:
  assumes "comparer_ok c" "ascending_from s ks"
    and "s \<le> i" "i \<le> j" "j < length ks"
  shows "\<exists>r. locate_loop c ks (KUser k) (int i) (int j) = Some (int r) \<and> i \<le> r \<and> r \<le> j
      \<and> (\<forall>x. i \<le> x \<and> x < r \<longrightarrow> key_less (ks ! x) (KUser k))
      \<and> (r < j \<longrightarrow> \<not> key_less (ks ! r) (KUser k))"
  using assms(3-5)
proof (induction "j - i" arbitrary: i j rule: less_induct)
  case less
  show ?case
  proof (cases "i < j")
    case False
    with less.prems have "i = j" by simp
    then show ?thesis by (subst locate_loop.simps) auto
  next
    case True
    let ?m = "(i + j) div 2"
    have m: "i \<le> ?m" "?m < j" using True by auto
    have q: "quot (int i + int j) 2 = int ?m"
      by (simp add: quot_nonneg zdiv_int)
    have ml: "?m < length ks" using m less.prems by simp
    then have im: "index ks (int ?m) = Some (ks ! ?m)" by simp
    obtain u where u: "ks ! ?m = KUser u"
      using assms(2) ml less.prems(1) m(1) unfolding ascending_from_def
      by (cases "ks ! ?m") (auto dest!: spec[of _ ?m])
    obtain d where d: "c (KUser u) (KUser k) = Some d" "d < 0 \<longleftrightarrow> u < k" "d = 0 \<longleftrightarrow> u = k"
      using assms(1) by (rule comparer_ok_cases)
    show ?thesis
    proof (cases "d < 0")
      case dl: True
      have "j - Suc ?m < j - i" using m by simp
      moreover have "s \<le> Suc ?m" "Suc ?m \<le> j" using m less.prems(1) by simp_all
      ultimately have "\<exists>r. locate_loop c ks (KUser k) (int (Suc ?m)) (int j) = Some (int r) \<and> Suc ?m \<le> r \<and> r \<le> j
        \<and> (\<forall>x. Suc ?m \<le> x \<and> x < r \<longrightarrow> key_less (ks ! x) (KUser k))
        \<and> (r < j \<longrightarrow> \<not> key_less (ks ! r) (KUser k))"
        using less.prems(3) by (rule less.hyps)
      then obtain r where r: "locate_loop c ks (KUser k) (int (Suc ?m)) (int j) = Some (int r)"
        "Suc ?m \<le> r" "r \<le> j"
        "\<forall>x. Suc ?m \<le> x \<and> x < r \<longrightarrow> key_less (ks ! x) (KUser k)"
        "r < j \<longrightarrow> \<not> key_less (ks ! r) (KUser k)"
        by blast
      have below: "key_less (ks ! x) (KUser k)" if "i \<le> x" "x < r" for x
      proof (cases "x \<le> ?m")
        case False
        with r(4) that show ?thesis by simp
      next
        case xm: True
        have "key_less (ks ! ?m) (KUser k)" using u d dl by simp
        moreover have "x < ?m \<Longrightarrow> key_less (ks ! x) (ks ! ?m)"
          using assms(2) that(1) less.prems(1) ml unfolding ascending_from_def by auto
        ultimately show ?thesis using xm by (cases "x = ?m") (auto intro: key_less_trans)
      qed
      have "locate_loop c ks (KUser k) (int i) (int j) = Some (int r)"
        apply (subst locate_loop.simps)
        using True q im u d(1) dl r(1) by (simp add: Let_def add.commute)
      with r below m show ?thesis by (intro exI[of _ r]) auto
    next
      case dl: False
      have "?m - i < j - i" using m by simp
      then have "\<exists>r. locate_loop c ks (KUser k) (int i) (int ?m) = Some (int r) \<and> i \<le> r \<and> r \<le> ?m
        \<and> (\<forall>x. i \<le> x \<and> x < r \<longrightarrow> key_less (ks ! x) (KUser k))
        \<and> (r < ?m \<longrightarrow> \<not> key_less (ks ! r) (KUser k))"
        using less.prems(1) m(1) ml by (rule less.hyps)
      then obtain r where r: "locate_loop c ks (KUser k) (int i) (int ?m) = Some (int r)"
        "i \<le> r" "r \<le> ?m"
        "\<forall>x. i \<le> x \<and> x < r \<longrightarrow> key_less (ks ! x) (KUser k)"
        "r < ?m \<longrightarrow> \<not> key_less (ks ! r) (KUser k)"
        by blast
      have notless: "\<not> key_less (ks ! ?m) (KUser k)" using u d dl by auto
      have "locate_loop c ks (KUser k) (int i) (int j) = Some (int r)"
        apply (subst locate_loop.simps)
        using True q im u d(1) dl r(1) by (simp add: Let_def)
      moreover have "\<not> key_less (ks ! r) (KUser k)"
        using r(5) notless r(3) by (cases "r = ?m") auto
      ultimately show ?thesis using r m by (intro exI[of _ r]) auto
    qed
  qed
qed

text \<open>The binary search followed by the last comparison, from position \<open>s\<close>.\<close>

lemma locate_spec:
  assumes "comparer_ok c" "ascending_from s ks" "s < length ks"
  shows "\<exists>r ok. (locate_loop c ks (KUser k) (int s) (int (length ks) - 1) \<bind> locate_tail c ks (KUser k))
        = Some (int r, ok)
      \<and> s \<le> r \<and> r \<le> length ks
      \<and> (ok \<longrightarrow> r < length ks \<and> ks ! r = KUser k)
      \<and> (\<forall>x. s \<le> x \<and> x < r \<longrightarrow> key_less (ks ! x) (KUser k))
      \<and> (\<forall>x. (if ok then r < x else r \<le> x) \<and> x < length ks \<longrightarrow> key_less (KUser k) (ks ! x))"
proof -
  let ?n = "length ks"
  have n1: "int ?n - 1 = int (?n - 1)" using assms(3) by simp
  have "s \<le> ?n - 1" "?n - 1 < ?n" using assms(3) by simp_all
  from locate_loop_spec[OF assms(1,2) le_refl this, of k]
  obtain r where r: "locate_loop c ks (KUser k) (int s) (int (?n - 1)) = Some (int r)"
    "s \<le> r" "r \<le> ?n - 1"
    "\<forall>x. s \<le> x \<and> x < r \<longrightarrow> key_less (ks ! x) (KUser k)"
    "r < ?n - 1 \<longrightarrow> \<not> key_less (ks ! r) (KUser k)"
    by blast
  have rl: "r < ?n" using r(3) assms(3) by simp
  have r1: "locate_loop c ks (KUser k) (int s) (int ?n - 1) = Some (int r)"
    unfolding n1 by (rule r(1))
  obtain u where u: "ks ! r = KUser u"
    using assms(2) rl r(2) unfolding ascending_from_def by (cases "ks ! r") (auto dest!: spec[of _ r])
  obtain d where d: "c (KUser u) (KUser k) = Some d" "d < 0 \<longleftrightarrow> u < k" "d = 0 \<longleftrightarrow> u = k"
    using assms(1) by (rule comparer_ok_cases)
  have asc: "key_less (ks ! x) (ks ! y)" if "s \<le> x" "x < y" "y < ?n" for x y
    using assms(2) that unfolding ascending_from_def by blast
  have tail: "locate_tail c ks (KUser k) (int r)
      = Some (if d = 0 then (int r, True) else (if d < 0 \<and> int r = int ?n - 1 then int ?n else int r, False))"
    using rl u d(1) by (simp add: locate_tail_def Let_def)
  consider (eq) "d = 0" | (lt) "d < 0" | (gt) "0 < d" by linarith
  then show ?thesis
  proof cases
    case eq
    then have uk: "u = k" using d by simp
    have kr: "ks ! r = KUser k" using u uk by simp
    have "\<forall>x. r < x \<and> x < ?n \<longrightarrow> key_less (KUser k) (ks ! x)"
    proof (intro allI impI)
      fix x assume "r < x \<and> x < ?n"
      then have "key_less (ks ! r) (ks ! x)" using r(2) by (intro asc) simp_all
      then show "key_less (KUser k) (ks ! x)" unfolding kr .
    qed
    then show ?thesis using r1 r(2,4) tail eq rl kr
      by (intro exI[of _ r] exI[of _ True]) simp
  next
    case lt
    then have "key_less (ks ! r) (KUser k)" using u d by simp
    with r(5) have rn: "r = ?n - 1" using r(3) by (cases "r < ?n - 1") auto
    have "\<forall>x. s \<le> x \<and> x < ?n \<longrightarrow> key_less (ks ! x) (KUser k)"
    proof (intro allI impI)
      fix x assume x: "s \<le> x \<and> x < ?n"
      show "key_less (ks ! x) (KUser k)"
      proof (cases "x = r")
        case True
        then show ?thesis using \<open>key_less (ks ! r) (KUser k)\<close> by simp
      next
        case False
        with x rn have "x < r" by arith
        with r(4) x show ?thesis by simp
      qed
    qed
    moreover have "int r = int ?n - 1" using rn rl by linarith
    ultimately show ?thesis using r1 tail lt assms(3)
      by (intro exI[of _ ?n] exI[of _ False]) auto
  next
    case gt
    then have ku: "key_less (KUser k) (ks ! r)" using u d by auto
    have "\<forall>x. r \<le> x \<and> x < ?n \<longrightarrow> key_less (KUser k) (ks ! x)"
    proof (intro allI impI)
      fix x assume x: "r \<le> x \<and> x < ?n"
      show "key_less (KUser k) (ks ! x)"
        using ku asc[of r x] r(2) x by (cases "x = r") (auto intro: key_less_trans)
    qed
    then show ?thesis using r1 r(2,4) tail gt rl
      by (intro exI[of _ r] exI[of _ False]) simp
  qed
qed


lemma ascending_from_0:
  assumes "list_all is_user ks" "sorted_wrt key_less ks"
  shows "ascending_from 0 ks"
  using assms unfolding ascending_from_def by (simp add: list_all_length sorted_wrt_nth_less)

lemma LocateRecord_user:
  assumes "comparer_ok c" "list_all is_user (map Key rs)" "sorted_wrt key_less (map Key rs)"
  shows "\<exists>i ok. LocateRecord rs (KUser k) c = Some (int i, ok) \<and> i \<le> length rs
      \<and> (\<forall>r \<in> set (take i rs). key_less (Key r) (KUser k))
      \<and> (ok \<longrightarrow> i < length rs \<and> Key (rs ! i) = KUser k)
      \<and> (\<not> ok \<longrightarrow> (\<forall>r \<in> set (drop i rs). key_less (KUser k) (Key r)))"
proof (cases "rs = []")
  case True
  then show ?thesis by (intro exI[of _ 0] exI[of _ False]) (simp add: LocateRecord_def)
next
  case False
  let ?ks = "map Key rs"
  have len: "0 < length ?ks" using False by simp
  have asc: "ascending_from 0 ?ks" using assms(2,3) by (rule ascending_from_0)
  from locate_spec[OF assms(1) asc len, of k]
  obtain r ok where r:
    "(locate_loop c ?ks (KUser k) (int 0) (int (length ?ks) - 1) \<bind> locate_tail c ?ks (KUser k)) = Some (int r, ok)"
    "r \<le> length ?ks" "ok \<longrightarrow> r < length ?ks \<and> ?ks ! r = KUser k"
    "\<forall>x. 0 \<le> x \<and> x < r \<longrightarrow> key_less (?ks ! x) (KUser k)"
    "\<forall>x. (if ok then r < x else r \<le> x) \<and> x < length ?ks \<longrightarrow> key_less (KUser k) (?ks ! x)"
    by blast
  have loc: "LocateRecord rs (KUser k) c = Some (int r, ok)"
    using r(1) False by (simp add: LocateRecord_def)
  have below: "\<forall>r' \<in> set (take r rs). key_less (Key r') (KUser k)"
  proof
    fix r' assume "r' \<in> set (take r rs)"
    then obtain x where x: "x < length (take r rs)" "take r rs ! x = r'"
      by (auto simp: in_set_conv_nth)
    then have "x < r" "x < length rs" "rs ! x = r'" by simp_all
    with r(4) show "key_less (Key r') (KUser k)" by auto
  qed
  have above: "\<forall>r' \<in> set (drop r rs). key_less (KUser k) (Key r')" if "\<not> ok"
  proof
    fix r' assume "r' \<in> set (drop r rs)"
    then obtain x where x: "x < length (drop r rs)" "drop r rs ! x = r'"
      by (auto simp: in_set_conv_nth)
    then have "r + x < length rs" "rs ! (r + x) = r'" using r(2) by simp_all
    with r(5) that show "key_less (KUser k) (Key r')" by auto
  qed
  show ?thesis
    using loc r(2,3) below above by (intro exI[of _ r] exI[of _ ok]) auto
qed

lemma LocateNodeChild_user:
  assumes "comparer_ok c" "2 \<le> length cs" "ascending_from 1 (map CKey cs)"
  shows "\<exists>i ok j. LocateNodeChild cs (KUser k) c = Some (i, ok)
      \<and> (if \<not> ok then i - 1 else i) = int j \<and> j < length cs
      \<and> (0 < j \<longrightarrow> key_less (CKey (cs ! j)) (KUser k) \<or> CKey (cs ! j) = KUser k)
      \<and> (Suc j < length cs \<longrightarrow> key_less (KUser k) (CKey (cs ! Suc j)))"
proof -
  let ?ks = "map CKey cs"
  have len: "1 < length ?ks" using assms(2) by simp
  from locate_spec[OF assms(1,3) len, of k]
  obtain r ok where r:
    "(locate_loop c ?ks (KUser k) (int 1) (int (length ?ks) - 1) \<bind> locate_tail c ?ks (KUser k)) = Some (int r, ok)"
    "1 \<le> r" "r \<le> length ?ks" "ok \<longrightarrow> r < length ?ks \<and> ?ks ! r = KUser k"
    "\<forall>x. 1 \<le> x \<and> x < r \<longrightarrow> key_less (?ks ! x) (KUser k)"
    "\<forall>x. (if ok then r < x else r \<le> x) \<and> x < length ?ks \<longrightarrow> key_less (KUser k) (?ks ! x)"
    by blast
  have loc: "LocateNodeChild cs (KUser k) c = Some (int r, ok)"
    using r(1) by (simp add: LocateNodeChild_def)
  show ?thesis
  proof (cases ok)
    case True
    have "Suc r < length cs \<longrightarrow> key_less (KUser k) (CKey (cs ! Suc r))"
      using r(6) True by auto
    then show ?thesis using loc True r(4)
      by (intro exI[of _ "int r"] exI[of _ True] exI[of _ r]) auto
  next
    case False
    obtain j where j: "r = Suc j" using r(2) by (cases r) auto
    have "0 < j \<longrightarrow> key_less (CKey (cs ! j)) (KUser k)"
      using r(5) j r(3) by auto
    moreover have "Suc j < length cs \<longrightarrow> key_less (KUser k) (CKey (cs ! Suc j))"
      using r(6) False j by auto
    moreover have "j < length cs" using r(3) j by simp
    ultimately show ?thesis using loc False j
      by (intro exI[of _ "int r"] exI[of _ False] exI[of _ j]) auto
  qed
qed


lemma records_of_append: "records_of bpt (xs @ ys) = records_of bpt xs @ records_of bpt ys"
  by (simp add: records_of_def)

lemma records_of_Cons: "records_of bpt (l # ls) = recs bpt l @ records_of bpt ls"
  by (simp add: records_of_def)

lemma records_of_Nil: "records_of bpt [] = []"
  by (simp add: records_of_def)

lemma records_of_concat: "records_of bpt (concat xss) = concat (map (records_of bpt) xss)"
  by (induction xss) (simp_all add: records_of_Nil records_of_append)

lemma keys_above_hd:
  assumes "sorted_wrt key_less (map Key (x # xs))" "key_less (KUser k) (Key x)"
  shows "\<forall>r \<in> set (x # xs). key_less (KUser k) (Key r)"
  using assms by (auto intro: key_less_trans)

lemma keys_below_pivot:
  assumes "sorted_wrt key_less (map Key (A @ x # xs))"
    "key_less (Key x) (KUser k) \<or> Key x = KUser k"
  shows "\<forall>r \<in> set A. key_less (Key r) (KUser k)"
proof
  fix r assume "r \<in> set A"
  then have "key_less (Key r) (Key x)" using assms(1) by (auto simp: sorted_wrt_append)
  with assms(2) show "key_less (Key r) (KUser k)" by (auto intro: key_less_trans)
qed

lemma findRecord_loop_user:
  fixes bpt :: "('k::linorder, 'v) BPTree"
  assumes c: "comparer_ok (keyComparer bpt)"
  shows "shape_ok bpt n p \<Longrightarrow> seps_ok bpt n p \<Longrightarrow> height bpt = int (length rp) + 1 + int n \<Longrightarrow>
    (0 < n \<longrightarrow> (\<forall>l \<in> set (leaves bpt n p). recs bpt l \<noteq> [])) \<Longrightarrow>
    list_all is_user (map Key (records_of bpt (leaves bpt n p))) \<Longrightarrow>
    sorted_wrt key_less (map Key (records_of bpt (leaves bpt n p))) \<Longrightarrow>
    \<exists>rp' ok pre l post i. findRecord_loop bpt (KUser k) rp p = Some (rp', ok)
      \<and> LocateRecord_path rp' = Some (l, int i)
      \<and> leaves bpt n p = pre @ l # post \<and> i \<le> length (recs bpt l)
      \<and> (\<forall>r \<in> set (records_of bpt pre @ take i (recs bpt l)). key_less (Key r) (KUser k))
      \<and> (ok \<longrightarrow> i < length (recs bpt l) \<and> Key (recs bpt l ! i) = KUser k)
      \<and> (\<not> ok \<longrightarrow> (\<forall>r \<in> set (drop i (recs bpt l) @ records_of bpt post). key_less (KUser k) (Key r)))
      \<and> (\<not> ok \<and> i = 0 \<longrightarrow> pre = [])"
proof (induction n arbitrary: p rp)
  case 0
  then obtain rs pv nx where d: "deref bpt p = Some (Leaf rs pv nx)"
    by (auto split: option.splits node.splits)
  have rs: "recs bpt p = rs" using d by simp
  have R: "records_of bpt (leaves bpt 0 p) = rs" using rs by (simp add: records_of_def)
  from LocateRecord_user[OF c, of rs k] 0(5,6) R
  obtain i ok where i: "LocateRecord rs (KUser k) (keyComparer bpt) = Some (int i, ok)" "i \<le> length rs"
    "\<forall>r \<in> set (take i rs). key_less (Key r) (KUser k)"
    "ok \<longrightarrow> i < length rs \<and> Key (rs ! i) = KUser k"
    "\<not> ok \<longrightarrow> (\<forall>r \<in> set (drop i rs). key_less (KUser k) (Key r))"
    by auto
  have "findRecord_loop bpt (KUser k) rp p = Some (Append rp p (int i), ok)"
    by (subst findRecord_loop.simps) (use 0(3) d i(1) in simp)
  then show ?case using i(2-5) rs
    by (intro exI[of _ "Append rp p (int i)"] exI[of _ ok] exI[of _ "[]"] exI[of _ p] exI[of _ i])
       (simp add: records_of_Nil)
next
  case (Suc n)
  from Suc.prems(1,2) obtain cs where cs: "deref bpt p = Some (NonLeaf cs)"
    and ch_shape: "list_all (\<lambda>c. shape_ok bpt n (CValue c)) cs"
    and len2: "2 \<le> length cs"
    and ch_seps: "list_all (\<lambda>c. seps_ok bpt n (CValue c)) cs"
    and seps: "list_all (\<lambda>c. case records_of bpt (leaves bpt n (CValue c)) of [] \<Rightarrow> False | r # rs \<Rightarrow> CKey c = Key r) (tl cs)"
    by (auto split: option.splits node.splits)
  define Ls where "Ls = (\<lambda>c :: 'k nodeChild. leaves bpt n (CValue c))"
  define Rs where "Rs = (\<lambda>c. records_of bpt (Ls c))"
  let ?R = "records_of bpt (leaves bpt (Suc n) p)"
  have lv: "leaves bpt (Suc n) p = concat (map Ls cs)" using cs by (simp add: Ls_def)
  have sorted: "sorted_wrt key_less (map Key ?R)" and users: "list_all is_user (map Key ?R)"
    using Suc.prems(5,6) by simp_all
  have sep: "\<exists>f rest. Rs (cs ! j) = f # rest \<and> CKey (cs ! j) = Key f" if jpos: "0 < j" and jlen: "j < length cs" for j
  proof -
    obtain j' where j': "j = Suc j'" using jpos by (auto dest: gr0_implies_Suc)
    have a: "j' < length (tl cs)" and b: "tl cs ! j' = cs ! j" using jlen j' by (simp_all add: nth_tl)
    from seps have "\<forall>x < length (tl cs).
        (case records_of bpt (leaves bpt n (CValue (tl cs ! x))) of [] \<Rightarrow> False | r # rs \<Rightarrow> CKey (tl cs ! x) = Key r)"
      by (simp add: list_all_length)
    with a have "case records_of bpt (leaves bpt n (CValue (tl cs ! j'))) of [] \<Rightarrow> False | r # rs \<Rightarrow> CKey (tl cs ! j') = Key r"
      by blast
    then have "case Rs (cs ! j) of [] \<Rightarrow> False | r # rs \<Rightarrow> CKey (cs ! j) = Key r"
      unfolding b Rs_def Ls_def .
    then show ?thesis by (cases "Rs (cs ! j)") simp_all
  qed
  have split_at: "leaves bpt (Suc n) p
      = concat (map Ls (take j cs)) @ Ls (cs ! j) @ concat (map Ls (drop (Suc j) cs))"
    if "j < length cs" for j
  proof -
    have "cs = take j cs @ cs ! j # drop (Suc j) cs" using that by (simp add: id_take_nth_drop)
    then have "concat (map Ls cs) = concat (map Ls (take j cs @ cs ! j # drop (Suc j) cs))" by simp
    then show ?thesis unfolding lv by simp
  qed
  have R_at: "?R = records_of bpt (concat (map Ls (take j cs))) @ Rs (cs ! j)
      @ records_of bpt (concat (map Ls (drop (Suc j) cs)))"
    if "j < length cs" for j
    unfolding split_at[OF that] Rs_def by (simp add: records_of_append)
  have asc: "ascending_from 1 (map CKey cs)"
    unfolding ascending_from_def
  proof (intro conjI allI impI)
    fix x assume x: "1 \<le> x \<and> x < length (map CKey cs)"
    then obtain f rest where f: "Rs (cs ! x) = f # rest" "CKey (cs ! x) = Key f"
      using sep[of x] by auto
    have "f \<in> set ?R" using R_at[of x] x f(1) by simp
    then have "is_user (Key f)" using users by (simp add: list_all_iff)
    then show "is_user (map CKey cs ! x)" using x f(2) by simp
  next
    fix x y assume xy: "1 \<le> x \<and> x < y \<and> y < length (map CKey cs)"
    then obtain f rest where f: "Rs (cs ! x) = f # rest" "CKey (cs ! x) = Key f"
      using sep[of x] by auto
    from xy obtain g rest' where g: "Rs (cs ! y) = g # rest'" "CKey (cs ! y) = Key g"
      using sep[of y] by auto
    have ylen: "y < length cs" using xy by simp
    have "cs ! x \<in> set (take y cs)" using xy by (auto simp: in_set_conv_nth intro!: exI[of _ x])
    then have "f \<in> set (records_of bpt (concat (map Ls (take y cs))))"
      using f(1) unfolding records_of_concat Rs_def by force
    moreover have "sorted_wrt key_less (map Key (records_of bpt (concat (map Ls (take y cs))) @ g # (rest'
      @ records_of bpt (concat (map Ls (drop (Suc y) cs))))))"
      using sorted unfolding R_at[OF ylen] g(1) by simp
    ultimately have "key_less (Key f) (Key g)" by (auto simp: sorted_wrt_append)
    then show "key_less (map CKey cs ! x) (map CKey cs ! y)" using xy f(2) g(2) by simp
  qed
  from LocateNodeChild_user[OF c len2 asc, of k]
  obtain i ok j where j: "LocateNodeChild cs (KUser k) (keyComparer bpt) = Some (i, ok)"
    "(if \<not> ok then i - 1 else i) = int j" "j < length cs"
    "0 < j \<longrightarrow> key_less (CKey (cs ! j)) (KUser k) \<or> CKey (cs ! j) = KUser k"
    "Suc j < length cs \<longrightarrow> key_less (KUser k) (CKey (cs ! Suc j))"
    by blast
  define A where "A = concat (map Ls (take j cs))"
  define B where "B = concat (map Ls (drop (Suc j) cs))"
  have lvj: "leaves bpt (Suc n) p = A @ Ls (cs ! j) @ B"
    unfolding A_def B_def using j(3) by (rule split_at)
  have Rj: "?R = records_of bpt A @ Rs (cs ! j) @ records_of bpt B"
    unfolding A_def B_def using j(3) by (rule R_at)
  have F1: "\<forall>r \<in> set (records_of bpt A). key_less (Key r) (KUser k)"
  proof (cases "0 < j")
    case False
    then show ?thesis by (simp add: A_def records_of_Nil)
  next
    case True
    then obtain f rest where f: "Rs (cs ! j) = f # rest" "CKey (cs ! j) = Key f"
      using sep[of j] j(3) by auto
    have "sorted_wrt key_less (map Key (records_of bpt A @ f # (rest @ records_of bpt B)))"
      using sorted unfolding Rj f(1) by simp
    moreover have "key_less (Key f) (KUser k) \<or> Key f = KUser k" using j(4) True f(2) by simp
    ultimately show ?thesis by (rule keys_below_pivot)
  qed
  have F2: "\<forall>r \<in> set (records_of bpt B). key_less (KUser k) (Key r)"
  proof (cases "Suc j < length cs")
    case False
    then show ?thesis by (simp add: B_def records_of_Nil)
  next
    case True
    then obtain f rest where f: "Rs (cs ! Suc j) = f # rest" "CKey (cs ! Suc j) = Key f"
      using sep[of "Suc j"] by auto
    have "drop (Suc j) cs = cs ! Suc j # drop (Suc (Suc j)) cs"
      using True by (simp add: Cons_nth_drop_Suc)
    then have B: "records_of bpt B = f # (rest @ records_of bpt (concat (map Ls (drop (Suc (Suc j)) cs))))"
      using f(1) unfolding B_def Rs_def by (simp add: records_of_append)
    have "sorted_wrt key_less (map Key (records_of bpt B))"
      using sorted unfolding Rj by (simp add: sorted_wrt_append)
    then have "sorted_wrt key_less (map Key (f # (rest @ records_of bpt (concat (map Ls (drop (Suc (Suc j)) cs))))))"
      unfolding B .
    moreover have "key_less (KUser k) (Key f)" using j(5) True f(2) by simp
    ultimately have "\<forall>r \<in> set (f # (rest @ records_of bpt (concat (map Ls (drop (Suc (Suc j)) cs))))). key_less (KUser k) (Key r)"
      by (rule keys_above_hd)
    then show ?thesis unfolding B .
  qed
  let ?c = "CValue (cs ! j)"
  have cj: "cs ! j \<in> set cs" using j(3) by simp
  have sh: "shape_ok bpt n ?c" using ch_shape cj by (simp add: list_all_iff)
  have se: "seps_ok bpt n ?c" using ch_seps cj by (simp add: list_all_iff)
  have h: "height bpt = int (length (Append rp p (int j))) + 1 + int n"
    using Suc.prems(3) by (simp add: Append_def)
  have "\<forall>l \<in> set (leaves bpt (Suc n) p). recs bpt l \<noteq> []"
    using Suc.prems(4) by blast
  then have "\<forall>l \<in> set (A @ Ls (cs ! j) @ B). recs bpt l \<noteq> []"
    unfolding lvj .
  then have ne: "0 < n \<longrightarrow> (\<forall>l \<in> set (leaves bpt n ?c). recs bpt l \<noteq> [])"
    by (simp add: Ls_def)
  have us: "list_all is_user (map Key (records_of bpt (leaves bpt n ?c)))"
    using users unfolding Rj Rs_def Ls_def by simp
  have so: "sorted_wrt key_less (map Key (records_of bpt (leaves bpt n ?c)))"
    using sorted unfolding Rj Rs_def Ls_def by (simp add: sorted_wrt_append)
  from Suc.IH[OF sh se h ne us so]
  obtain rp' ok' pre l post i' where ih:
    "findRecord_loop bpt (KUser k) (Append rp p (int j)) ?c = Some (rp', ok')"
    "LocateRecord_path rp' = Some (l, int i')"
    "leaves bpt n ?c = pre @ l # post" "i' \<le> length (recs bpt l)"
    "\<forall>r \<in> set (records_of bpt pre @ take i' (recs bpt l)). key_less (Key r) (KUser k)"
    "ok' \<longrightarrow> i' < length (recs bpt l) \<and> Key (recs bpt l ! i') = KUser k"
    "\<not> ok' \<longrightarrow> (\<forall>r \<in> set (drop i' (recs bpt l) @ records_of bpt post). key_less (KUser k) (Key r))"
    "\<not> ok' \<and> i' = 0 \<longrightarrow> pre = []"
    by blast
  have hne: "int (length rp) + 1 \<noteq> height bpt" using Suc.prems(3) by simp
  have idx: "index cs (int j) = Some (cs ! j)" using j(3) by simp
  have run: "findRecord_loop bpt (KUser k) rp p = Some (rp', ok')"
    by (subst findRecord_loop.simps) (use hne cs j(1,2) idx ih(1) in \<open>simp add: Let_def\<close>)
  have lvs: "leaves bpt (Suc n) p = (A @ pre) @ l # (post @ B)"
    using lvj ih(3) by (simp add: Ls_def)
  have below: "\<forall>r \<in> set (records_of bpt (A @ pre) @ take i' (recs bpt l)). key_less (Key r) (KUser k)"
    using F1 ih(5) by (auto simp: records_of_append)
  have above: "\<not> ok' \<longrightarrow> (\<forall>r \<in> set (drop i' (recs bpt l) @ records_of bpt (post @ B)). key_less (KUser k) (Key r))"
    using F2 ih(7) by (auto simp: records_of_append)
  have first: "\<not> ok' \<and> i' = 0 \<longrightarrow> A @ pre = []"
  proof
    assume a: "\<not> ok' \<and> i' = 0"
    then have pre: "pre = []" using ih(8) by simp
    have "j = 0"
    proof (rule ccontr)
      assume "j \<noteq> 0"
      then obtain f rest where f: "Rs (cs ! j) = f # rest" "CKey (cs ! j) = Key f"
        using sep[of j] j(3) by auto
      have "Rs (cs ! j) = recs bpt l @ records_of bpt post"
        unfolding Rs_def Ls_def ih(3) pre by (simp add: records_of_Cons)
      then have "f # rest = recs bpt l @ records_of bpt post" using f(1) by simp
      then have "f \<in> set (recs bpt l @ records_of bpt post)" by (metis list.set_intros(1))
      then have "f \<in> set (drop i' (recs bpt l) @ records_of bpt post)" using a by simp
      then have "key_less (KUser k) (Key f)" using ih(7) a by blast
      moreover have "key_less (Key f) (KUser k) \<or> Key f = KUser k" using j(4) \<open>j \<noteq> 0\<close> f(2) by simp
      ultimately show False by (auto dest: key_less_asym simp: key_less_irrefl)
    qed
    then show "A @ pre = []" using pre by (simp add: A_def)
  qed
  show ?case
    using run ih(2,4,6) lvs below above first
    by (intro exI[of _ rp'] exI[of _ ok'] exI[of _ "A @ pre"] exI[of _ l] exI[of _ "post @ B"] exI[of _ i'])
       (intro conjI; assumption)
qed

lemma findRecord_user:
  fixes bpt :: "('k::linorder, 'v) BPTree"
  assumes "wf_bpt bpt" "separators_ok bpt" "comparer_ok (keyComparer bpt)"
  defines "ls \<equiv> tree_leaves bpt" and "R \<equiv> tree_records bpt"
  shows "\<exists>rp ok a i. findRecord bpt (KUser k) = Some (rp, ok)
      \<and> LocateRecord_path rp = Some (ls ! a, int i)
      \<and> a < length ls \<and> i \<le> length (recs bpt (ls ! a))
      \<and> (\<forall>x < offset bpt ls a + i. key_less (Key (R ! x)) (KUser k))
      \<and> (ok \<longrightarrow> i < length (recs bpt (ls ! a)) \<and> Key (R ! (offset bpt ls a + i)) = KUser k)
      \<and> (\<not> ok \<longrightarrow> (\<forall>x. offset bpt ls a + i \<le> x \<and> x < length R \<longrightarrow> key_less (KUser k) (Key (R ! x))))
      \<and> (\<not> ok \<and> i = 0 \<longrightarrow> a = 0)"
proof -
  let ?n = "tree_level bpt"
  have sh: "shape_ok bpt ?n (root bpt)" using assms(1) by (simp add: wf_bpt_def)
  have se: "seps_ok bpt ?n (root bpt)" using assms(2) by (simp add: separators_ok_def)
  have h: "height bpt = int (length ([] :: recordPath)) + 1 + int ?n"
    using wf_bpt_height[OF assms(1)] by simp
  have ne: "0 < ?n \<longrightarrow> (\<forall>l \<in> set (leaves bpt ?n (root bpt)). recs bpt l \<noteq> [])"
    using assms(1) by (simp add: wf_bpt_def tree_level_def tree_leaves_def list_all_iff)
  have us: "list_all is_user (map Key (records_of bpt (leaves bpt ?n (root bpt))))"
    and so: "sorted_wrt key_less (map Key (records_of bpt (leaves bpt ?n (root bpt))))"
    using assms(1) by (simp_all add: wf_bpt_def tree_records_def tree_leaves_def)
  from findRecord_loop_user[OF assms(3) sh se h ne us so, of k]
  obtain rp ok pre l post i where f:
    "findRecord_loop bpt (KUser k) [] (root bpt) = Some (rp, ok)"
    "LocateRecord_path rp = Some (l, int i)"
    "leaves bpt ?n (root bpt) = pre @ l # post" "i \<le> length (recs bpt l)"
    "\<forall>r \<in> set (records_of bpt pre @ take i (recs bpt l)). key_less (Key r) (KUser k)"
    "ok \<longrightarrow> i < length (recs bpt l) \<and> Key (recs bpt l ! i) = KUser k"
    "\<not> ok \<longrightarrow> (\<forall>r \<in> set (drop i (recs bpt l) @ records_of bpt post). key_less (KUser k) (Key r))"
    "\<not> ok \<and> i = 0 \<longrightarrow> pre = []"
    by blast
  define a where "a = length pre"
  have lseq: "ls = pre @ l # post" using f(3) by (simp add: ls_def tree_leaves_def)
  have la: "ls ! a = l" "a < length ls" "take a ls = pre" by (simp_all add: lseq a_def)
  have off: "offset bpt ls a = length (records_of bpt pre)" by (simp add: offset_def la)
  define before where "before = records_of bpt pre @ take i (recs bpt l)"
  define after where "after = drop i (recs bpt l) @ records_of bpt post"
  have Req: "R = before @ after"
    unfolding R_def tree_records_def before_def after_def
    using lseq by (simp add: ls_def records_of_append records_of_Cons)
  have lb: "length before = offset bpt ls a + i" using f(4) by (simp add: before_def off)
  have below: "\<forall>x < offset bpt ls a + i. key_less (Key (R ! x)) (KUser k)"
  proof (intro allI impI)
    fix x assume "x < offset bpt ls a + i"
    then have "x < length before" using lb by simp
    then have "R ! x \<in> set before" unfolding Req by (simp add: nth_append)
    then show "key_less (Key (R ! x)) (KUser k)" using f(5) unfolding before_def by blast
  qed
  have found: "ok \<longrightarrow> i < length (recs bpt (ls ! a)) \<and> Key (R ! (offset bpt ls a + i)) = KUser k"
  proof
    assume ok
    with f(6) have i: "i < length (recs bpt l)" "Key (recs bpt l ! i) = KUser k" by simp_all
    have "R ! (offset bpt ls a + i) = after ! 0" unfolding Req using lb by (simp add: nth_append)
    also have "\<dots> = recs bpt l ! i" using i(1) by (simp add: after_def nth_append)
    finally show "i < length (recs bpt (ls ! a)) \<and> Key (R ! (offset bpt ls a + i)) = KUser k"
      using i la(1) by simp
  qed
  have above: "\<not> ok \<longrightarrow> (\<forall>x. offset bpt ls a + i \<le> x \<and> x < length R \<longrightarrow> key_less (KUser k) (Key (R ! x)))"
  proof (intro allI impI)
    fix x assume nok: "\<not> ok" and x: "offset bpt ls a + i \<le> x \<and> x < length R"
    then have "R ! x = after ! (x - length before)"
      unfolding Req using lb by (simp add: nth_append)
    moreover have "x - length before < length after"
      using x lb unfolding Req by (simp add: less_diff_conv2)
    ultimately have "R ! x \<in> set after" by (metis nth_mem)
    then show "key_less (KUser k) (Key (R ! x))" using f(7) nok unfolding after_def by blast
  qed
  have first: "\<not> ok \<and> i = 0 \<longrightarrow> a = 0" using f(8) by (simp add: a_def)
  have run: "findRecord bpt (KUser k) = Some (rp, ok)" using f(1) by (simp add: findRecord_def)
  have path: "LocateRecord_path rp = Some (ls ! a, int i)" using f(2) la(1) by simp
  have il: "i \<le> length (recs bpt (ls ! a))" using f(4) la(1) by simp
  show ?thesis
    using run path la(2) il below found above first
    by (intro exI[of _ rp] exI[of _ ok] exI[of _ a] exI[of _ i]) (intro conjI; assumption)
qed


lemma in_range_below: "key_less (Key r) (KUser lo) \<Longrightarrow> \<not> in_range lo hi r"
  by (cases "Key r") (auto simp: in_range_def)

lemma in_range_above: "key_less (KUser hi) (Key r) \<Longrightarrow> \<not> in_range lo hi r"
  by (cases "Key r") (auto simp: in_range_def)

lemma in_range_user: "Key r = KUser k \<Longrightarrow> in_range lo hi r \<longleftrightarrow> lo \<le> k \<and> k \<le> hi"
  by (simp add: in_range_def)

lemma filter_none: "\<forall>x < length R. \<not> P (R ! x) \<Longrightarrow> filter P R = []"
  by (auto simp: filter_empty_conv in_set_conv_nth)

lemma filter_range:
  assumes "sorted_wrt key_less (map Key R)" "g1 \<le> g2" "g2 < length R"
    "in_range lo hi (R ! g1)" "in_range lo hi (R ! g2)"
    "\<forall>x < g1. \<not> in_range lo hi (R ! x)"
    "\<forall>x. g2 < x \<and> x < length R \<longrightarrow> \<not> in_range lo hi (R ! x)"
  shows "filter (in_range lo hi) R = range_records R g1 g2"
proof -
  have mono: "key_less (Key (R ! x)) (Key (R ! y))" if xy: "x < y" and yl: "y < length R" for x y
    using sorted_wrt_nth_less[OF assms(1), of x y] xy yl by simp
  obtain a where a: "Key (R ! g1) = KUser a" "lo \<le> a"
    using assms(4) by (cases "Key (R ! g1)") (auto simp: in_range_def)
  obtain b where b: "Key (R ! g2) = KUser b" "b \<le> hi"
    using assms(5) by (cases "Key (R ! g2)") (auto simp: in_range_def)
  have mid: "in_range lo hi (R ! x)" if x1: "g1 \<le> x" and x2: "x \<le> g2" for x
  proof (cases "x = g1 \<or> x = g2")
    case True
    then show ?thesis using assms(4,5) by auto
  next
    case False
    then have "key_less (Key (R ! g1)) (Key (R ! x))" "key_less (Key (R ! x)) (Key (R ! g2))"
      using x1 x2 assms(3) by (auto intro!: mono)
    then show ?thesis using a b by (cases "Key (R ! x)") (auto simp: in_range_def)
  qed
  have split: "R = take g1 R @ range_records R g1 g2 @ drop (Suc g2) R"
  proof -
    have "drop (Suc g2 - g1) (drop g1 R) = drop (Suc g2) R" using assms(2) by simp
    then have "drop g1 R = range_records R g1 g2 @ drop (Suc g2) R"
      unfolding range_records_def by (metis append_take_drop_id)
    then show ?thesis by (metis append_take_drop_id)
  qed
  have f1: "filter (in_range lo hi) (take g1 R) = []"
  proof (rule filter_none, intro allI impI)
    fix x assume "x < length (take g1 R)"
    then show "\<not> in_range lo hi (take g1 R ! x)" using assms(6) by simp
  qed
  have f3: "filter (in_range lo hi) (drop (Suc g2) R) = []"
  proof (rule filter_none, intro allI impI)
    fix x assume "x < length (drop (Suc g2) R)"
    then show "\<not> in_range lo hi (drop (Suc g2) R ! x)" using assms(7) by simp
  qed
  have f2: "filter (in_range lo hi) (range_records R g1 g2) = range_records R g1 g2"
  proof (rule filter_True, rule ballI)
    fix r assume "r \<in> set (range_records R g1 g2)"
    then obtain y where y: "y < length (range_records R g1 g2)" "range_records R g1 g2 ! y = r"
      by (auto simp: in_set_conv_nth)
    then have "y < Suc g2 - g1" "r = R ! (g1 + y)"
      using assms(2,3) by (simp_all add: range_records_def)
    then show "in_range lo hi r" using mid[of "g1 + y"] by simp
  qed
  have "filter (in_range lo hi) R
      = filter (in_range lo hi) (take g1 R @ range_records R g1 g2 @ drop (Suc g2) R)"
    using split by simp
  then show ?thesis using f1 f2 f3 by simp
qed


lemma findAndLocateRecords_user:
  fixes bpt :: "('k::linorder, 'v) BPTree"
  assumes wf: "wf_bpt bpt" and sp: "separators_ok bpt" and cmp: "comparer_ok (keyComparer bpt)"
    and hyp: "lo < hi \<or> (lo = hi \<and> (\<exists>r \<in> set (tree_records bpt). Key r = KUser lo))"
  defines "ls \<equiv> tree_leaves bpt" and "R \<equiv> tree_records bpt"
  shows "(findAndLocateRecords bpt (KUser lo) (KUser hi) = Some (0, 0, 0, 0, False)
          \<and> filter (in_range lo hi) R = [])
     \<or> (\<exists>a i b j. findAndLocateRecords bpt (KUser lo) (KUser hi) = Some (ls ! a, int i, ls ! b, int j, True)
          \<and> a < length ls \<and> i < length (recs bpt (ls ! a))
          \<and> b < length ls \<and> j < length (recs bpt (ls ! b))
          \<and> offset bpt ls a + i \<le> offset bpt ls b + j
          \<and> filter (in_range lo hi) R = range_records R (offset bpt ls a + i) (offset bpt ls b + j))"
proof -
  obtain d0 where d0: "keyComparer bpt (KUser lo) (KUser hi) = Some d0"
    "d0 < 0 \<longleftrightarrow> lo < hi" "d0 = 0 \<longleftrightarrow> lo = hi"
    using cmp by (rule comparer_ok_cases)
  have d0le: "\<not> 0 < d0" using hyp d0(2,3) by auto
  have lohi: "lo \<le> hi" using hyp by auto
  have sorted: "sorted_wrt key_less (map Key R)" and users: "list_all is_user (map Key R)"
    using wf by (simp_all add: wf_bpt_def R_def)
  have mono: "key_less (Key (R ! x)) (Key (R ! y))" if xy: "x < y" and yl: "y < length R" for x y
    using sorted_wrt_nth_less[OF sorted, of x y] xy yl by simp
  have lr: "leafRecords bpt (ls ! a) = Some (recs bpt (ls ! a))" if al: "a < length ls" for a
    using wf_bpt_leafRecords[OF wf, of "ls ! a"] al by (simp add: ls_def)
  have Rls: "R = records_of bpt ls" by (simp add: R_def ls_def tree_records_def)
  have lsne: "ls \<noteq> []" using wf_bpt_leaves_nonempty[OF wf] by (simp add: ls_def)
  have dist: "distinct ls" and chain: "chain_ok bpt ls" and tl: "tail bpt = last ls"
    using wf by (simp_all add: wf_bpt_def ls_def)
  from findRecord_user[OF wf sp cmp, of lo]
  obtain rp1 ok3 a1 i1 where m: "findRecord bpt (KUser lo) = Some (rp1, ok3)"
    "LocateRecord_path rp1 = Some (ls ! a1, int i1)"
    "a1 < length ls" "i1 \<le> length (recs bpt (ls ! a1))"
    "\<forall>x < offset bpt ls a1 + i1. key_less (Key (R ! x)) (KUser lo)"
    "ok3 \<longrightarrow> i1 < length (recs bpt (ls ! a1)) \<and> Key (R ! (offset bpt ls a1 + i1)) = KUser lo"
    "\<not> ok3 \<longrightarrow> (\<forall>x. offset bpt ls a1 + i1 \<le> x \<and> x < length R \<longrightarrow> key_less (KUser lo) (Key (R ! x)))"
    unfolding ls_def R_def by blast
  let ?g = "offset bpt ls a1 + i1"
  have below_out: "\<forall>x < ?g. \<not> in_range lo hi (R ! x)"
    using m(5) by (auto dest: in_range_below)
  show ?thesis
  proof (cases "\<not> ok3 \<and> i1 = length (recs bpt (ls ! a1)) \<and> ls ! a1 = tail bpt")
    case True
    have "ls ! a1 = ls ! (length ls - 1)" using True tl lsne by (simp add: last_conv_nth)
    then have "a1 = length ls - 1" using dist m(3) lsne by (simp add: nth_eq_iff_index_eq)
    then have "Suc a1 = length ls" using lsne by (cases ls) simp_all
    then have "?g = length R" using True offset_Suc[OF m(3), of bpt] offset_length[of bpt ls]
      by (simp add: Rls)
    then have none: "filter (in_range lo hi) R = []" using below_out by (intro filter_none) simp
    have "findAndLocateRecords bpt (KUser lo) (KUser hi) = Some (0, 0, 0, 0, False)"
      unfolding findAndLocateRecords_def
      using d0(1) d0le m(1,2) lr[OF m(3)] True by (simp add: Let_def)
    with none show ?thesis by blast
  next
    case notend: False
    text \<open>The position of the first record not below \<open>lo\<close>.\<close>
    have "\<exists>a i. (if \<not> ok3 \<and> i1 = length (recs bpt (ls ! a1))
              then do { n \<leftarrow> leafNext bpt (ls ! a1); Some (n, 0) } else Some (ls ! a1, int i1))
            = Some (ls ! a, int i)
          \<and> a < length ls \<and> i < length (recs bpt (ls ! a)) \<and> offset bpt ls a + i = ?g"
    proof (cases "\<not> ok3 \<and> i1 = length (recs bpt (ls ! a1))")
      case True
      with notend have nt: "ls ! a1 \<noteq> last ls" using tl by simp
      have "a1 \<noteq> length ls - 1" using nt lsne by (auto simp: last_conv_nth)
      then have sa: "Suc a1 < length ls" using m(3) by simp
      have nx: "leafNext bpt (ls ! a1) = Some (ls ! Suc a1)" using chain sa by (rule chain_ok_nth)
      have "1 < height bpt"
      proof (rule ccontr)
        assume "\<not> 1 < height bpt"
        then have "height bpt = 1" using wf by (simp add: wf_bpt_def)
        then have "ls = [root bpt]" using wf_bpt_single_leaf[OF wf] by (simp add: ls_def)
        with sa show False by simp
      qed
      then have "\<forall>l \<in> set ls. recs bpt l \<noteq> []" using wf by (simp add: wf_bpt_def ls_def list_all_iff)
      then have "recs bpt (ls ! Suc a1) \<noteq> []" using sa by simp
      moreover have "offset bpt ls (Suc a1) + 0 = ?g" using True offset_Suc[OF m(3), of bpt] by simp
      ultimately show ?thesis using True nx sa
        by (intro exI[of _ "Suc a1"] exI[of _ 0]) simp
    next
      case False
      then have "i1 < length (recs bpt (ls ! a1))" using m(4,6) by (cases ok3) auto
      then show ?thesis using False m(3) by (intro exI[of _ a1] exI[of _ i1]) auto
    qed
    then obtain a i where norm: "(if \<not> ok3 \<and> i1 = length (recs bpt (ls ! a1))
              then do { n \<leftarrow> leafNext bpt (ls ! a1); Some (n, 0) } else Some (ls ! a1, int i1))
            = Some (ls ! a, int i)"
      and a: "a < length ls" and i: "i < length (recs bpt (ls ! a))" and g: "offset bpt ls a + i = ?g"
      by blast
    have gl: "?g < length R" and gr: "R ! ?g = recs bpt (ls ! a) ! i"
      using records_of_nth[OF a i] unfolding Rls g by simp_all
    obtain mk where mk: "Key (R ! ?g) = KUser mk"
      using is_user_nth[OF users, of ?g] gl by auto
    have mk_lo: "lo \<le> mk"
    proof (cases ok3)
      case True
      then show ?thesis using m(6) mk by simp
    next
      case False
      then have "key_less (KUser lo) (Key (R ! ?g))" using m(7) gl by simp
      then show ?thesis using mk by simp
    qed
    have prefix: "findAndLocateRecords bpt (KUser lo) (KUser hi) =
      (if d0 = 0 then Some (ls ! a, int i, ls ! a, int i, True)
       else do {
         (minKey, d) \<leftarrow>
           (if \<not> ok3 then do { d \<leftarrow> keyComparer bpt (KUser mk) (KUser hi); Some (KUser mk, d) }
            else Some (KUser lo, d0));
         if \<not> ok3 \<and> d = 0 then Some (ls ! a, int i, ls ! a, int i, True)
         else if \<not> ok3 \<and> d > 0 then Some (0, 0, 0, 0, False)
         else do {
           (maxRecordPath, ok4) \<leftarrow> findRecord bpt (KUser hi);
           (maxLeaf, maxRecordIndex) \<leftarrow> LocateRecord_path maxRecordPath;
           let maxRecordIndex = (if \<not> ok4 then maxRecordIndex - 1 else maxRecordIndex);
           if \<not> ok4 then
             do {
               rs \<leftarrow> leafRecords bpt maxLeaf;
               r \<leftarrow> index rs maxRecordIndex;
               d \<leftarrow> keyComparer bpt minKey (Key r);
               if d = 0 then Some (ls ! a, int i, ls ! a, int i, True)
               else if d > 0 then Some (0, 0, 0, 0, False)
               else Some (ls ! a, int i, maxLeaf, maxRecordIndex, True)
             }
           else Some (ls ! a, int i, maxLeaf, maxRecordIndex, True)
         }
       })"
      unfolding findAndLocateRecords_def
      using d0(1) d0le m(1,2) lr[OF m(3)] lr[OF a] notend norm i gr[symmetric] mk
      by (cases ok3) (auto simp: Let_def cong: if_cong)
    have g_in: "in_range lo hi (R ! ?g) \<longleftrightarrow> mk \<le> hi"
      using mk mk_lo by (simp add: in_range_user)
    have single: ?thesis
      if res: "findAndLocateRecords bpt (KUser lo) (KUser hi) = Some (ls ! a, int i, ls ! a, int i, True)"
        and le: "mk \<le> hi" and ab: "\<forall>x. ?g < x \<and> x < length R \<longrightarrow> key_less (KUser hi) (Key (R ! x))"
    proof -
      have "\<forall>x. ?g < x \<and> x < length R \<longrightarrow> \<not> in_range lo hi (R ! x)"
        using ab by (auto dest: in_range_above)
      then have "filter (in_range lo hi) R = range_records R ?g ?g"
        using sorted gl g_in le below_out by (intro filter_range) simp_all
      then show ?thesis using res a i g
        by (intro disjI2 exI[of _ a] exI[of _ i]) simp
    qed
    show ?thesis
    proof (cases "d0 = 0")
      case True
      then have eq: "lo = hi" using d0(3) by simp
      with hyp obtain r where r: "r \<in> set R" "Key r = KUser lo" by (auto simp: R_def)
      then obtain x where x: "x < length R" "R ! x = r" by (auto simp: in_set_conv_nth)
      have ok3: ok3
      proof (rule ccontr)
        assume nok: "\<not> ok3"
        show False
        proof (cases "x < ?g")
          case True
          with m(5) have "key_less (Key (R ! x)) (KUser lo)" by simp
          then show False using x(2) r(2) by simp
        next
          case False
          with m(7) nok x(1) have "key_less (KUser lo) (Key (R ! x))" by simp
          then show False using x(2) r(2) by simp
        qed
      qed
      then have mklo: "mk = lo" using m(6) mk by simp
      have res: "findAndLocateRecords bpt (KUser lo) (KUser hi) = Some (ls ! a, int i, ls ! a, int i, True)"
        using prefix True by simp
      have "\<forall>x. ?g < x \<and> x < length R \<longrightarrow> key_less (KUser hi) (Key (R ! x))"
      proof (intro allI impI)
        fix y assume "?g < y \<and> y < length R"
        then have "key_less (Key (R ! ?g)) (Key (R ! y))" by (intro mono) simp_all
        then show "key_less (KUser hi) (Key (R ! y))" using mk mklo eq by simp
      qed
      with res show ?thesis using mklo eq by (intro single) simp_all
    next
      case False
      then have lt: "lo < hi" "d0 < 0" using hyp d0(2,3) by auto
      obtain d1 where d1: "keyComparer bpt (KUser mk) (KUser hi) = Some d1"
        "d1 < 0 \<longleftrightarrow> mk < hi" "d1 = 0 \<longleftrightarrow> mk = hi"
        using cmp by (rule comparer_ok_cases)
      have after_g: "key_less (KUser mk) (Key (R ! y))" if yg: "?g < y" and yl: "y < length R" for y
        using mono[OF yg yl] mk by simp
      consider (one) "\<not> ok3" "d1 = 0" | (none) "\<not> ok3" "0 < d1" | (more) "ok3 \<or> d1 < 0"
        by linarith
      then show ?thesis
      proof cases
        case one
        then have mkhi: "mk = hi" using d1(3) by simp
        have res: "findAndLocateRecords bpt (KUser lo) (KUser hi) = Some (ls ! a, int i, ls ! a, int i, True)"
          using prefix False one d1(1) by simp
        have "\<forall>x. ?g < x \<and> x < length R \<longrightarrow> key_less (KUser hi) (Key (R ! x))"
          using after_g mkhi by simp
        with res show ?thesis using mkhi by (intro single) simp_all
      next
        case none
        then have hm: "hi < mk" using d1(2,3) by auto
        have res: "findAndLocateRecords bpt (KUser lo) (KUser hi) = Some (0, 0, 0, 0, False)"
          using prefix False none d1(1) by simp
        have "\<forall>x < length R. \<not> in_range lo hi (R ! x)"
        proof (intro allI impI)
          fix x assume xl: "x < length R"
          consider "x < ?g" | "x = ?g" | "?g < x" by linarith
          then show "\<not> in_range lo hi (R ! x)"
          proof cases
            case 1
            then show ?thesis using below_out by simp
          next
            case 2
            then show ?thesis using g_in hm by simp
          next
            case 3
            then have "key_less (KUser mk) (Key (R ! x))" using xl by (rule after_g)
            then have "key_less (KUser hi) (Key (R ! x))"
              using hm by (cases "Key (R ! x)") auto
            then show ?thesis by (rule in_range_above)
          qed
        qed
        then have "filter (in_range lo hi) R = []" by (rule filter_none)
        with res show ?thesis by blast
      next
        case more
        have mkhi: "mk < hi"
        proof (cases ok3)
          case True
          then show ?thesis using m(6) mk lt(1) by simp
        next
          case False
          then show ?thesis using more d1(2) by simp
        qed
        have min_key: "(if \<not> ok3 then KUser mk else KUser lo) = KUser mk"
          using m(6) mk by (cases ok3) simp_all
        from findRecord_user[OF wf sp cmp, of hi]
        obtain rp2 ok4 a2 i2 where M: "findRecord bpt (KUser hi) = Some (rp2, ok4)"
          "LocateRecord_path rp2 = Some (ls ! a2, int i2)"
          "a2 < length ls" "i2 \<le> length (recs bpt (ls ! a2))"
          "\<forall>x < offset bpt ls a2 + i2. key_less (Key (R ! x)) (KUser hi)"
          "ok4 \<longrightarrow> i2 < length (recs bpt (ls ! a2)) \<and> Key (R ! (offset bpt ls a2 + i2)) = KUser hi"
          "\<not> ok4 \<longrightarrow> (\<forall>x. offset bpt ls a2 + i2 \<le> x \<and> x < length R \<longrightarrow> key_less (KUser hi) (Key (R ! x)))"
          "\<not> ok4 \<and> i2 = 0 \<longrightarrow> a2 = 0"
          unfolding ls_def R_def by blast
        let ?h = "offset bpt ls a2 + i2"
        have range: ?thesis
          if res: "findAndLocateRecords bpt (KUser lo) (KUser hi) = Some (ls ! a, int i, ls ! b, int j, True)"
            and b: "b < length ls" and j: "j < length (recs bpt (ls ! b))"
            and le: "?g \<le> offset bpt ls b + j"
            and kb: "Key (R ! (offset bpt ls b + j)) = KUser kb" "kb \<le> hi"
            and ab: "\<forall>x. offset bpt ls b + j < x \<and> x < length R \<longrightarrow> key_less (KUser hi) (Key (R ! x))"
          for b j kb
        proof -
          let ?g2 = "offset bpt ls b + j"
          have g2l: "?g2 < length R" using records_of_nth(1)[OF b j] by (simp add: Rls)
          have "mk \<le> kb"
          proof (cases "?g = ?g2")
            case True
            then show ?thesis using mk kb(1) by simp
          next
            case False
            then have "key_less (Key (R ! ?g)) (Key (R ! ?g2))" using le g2l by (intro mono) simp_all
            then show ?thesis using mk kb(1) by simp
          qed
          then have "in_range lo hi (R ! ?g2)" using kb mk_lo by (simp add: in_range_user)
          moreover have "in_range lo hi (R ! ?g)" using g_in mkhi by simp
          moreover have "\<forall>x. ?g2 < x \<and> x < length R \<longrightarrow> \<not> in_range lo hi (R ! x)"
            using ab by (auto dest: in_range_above)
          ultimately have "filter (in_range lo hi) R = range_records R ?g ?g2"
            using sorted le g2l below_out by (intro filter_range) simp_all
          then show ?thesis using res a i b j le g
            by (intro disjI2 exI[of _ a] exI[of _ i] exI[of _ b] exI[of _ j]) simp
        qed
        show ?thesis
        proof (cases ok4)
          case True
          then have i2: "i2 < length (recs bpt (ls ! a2))" and kh: "Key (R ! ?h) = KUser hi"
            using M(6) by simp_all
          have hl: "?h < length R" using records_of_nth(1)[OF M(3) i2] by (simp add: Rls)
          have res: "findAndLocateRecords bpt (KUser lo) (KUser hi) = Some (ls ! a, int i, ls ! a2, int i2, True)"
            using prefix False more d1(1) mkhi d1(2) lt(2) M(1,2) True
            by (cases ok3) (simp_all add: Let_def)
          have le: "?g \<le> ?h"
          proof (rule ccontr)
            assume "\<not> ?g \<le> ?h"
            then have "key_less (Key (R ! ?h)) (Key (R ! ?g))" using gl by (intro mono) simp_all
            then show False using kh mk mkhi by simp
          qed
          have "\<forall>x. ?h < x \<and> x < length R \<longrightarrow> key_less (KUser hi) (Key (R ! x))"
          proof (intro allI impI)
            fix x assume "?h < x \<and> x < length R"
            then have "key_less (Key (R ! ?h)) (Key (R ! x))" by (intro mono) simp_all
            then show "key_less (KUser hi) (Key (R ! x))" using kh by simp
          qed
          with res M(3) i2 le kh show ?thesis by (intro range[of a2 i2 hi]) simp_all
        next
          case False
          then have above: "\<forall>x. ?h \<le> x \<and> x < length R \<longrightarrow> key_less (KUser hi) (Key (R ! x))"
            using M(7) by simp
          have gh: "?g < ?h"
          proof (rule ccontr)
            assume "\<not> ?g < ?h"
            then have "key_less (KUser hi) (Key (R ! ?g))" using above gl by simp
            then show False using mk mkhi by simp
          qed
          have "i2 \<noteq> 0"
          proof
            assume "i2 = 0"
            then have "a2 = 0" using M(8) False by simp
            then show False using gh \<open>i2 = 0\<close> by simp
          qed
          then obtain j2 where j2: "i2 = Suc j2" by (cases i2) simp_all
          have j2l: "j2 < length (recs bpt (ls ! a2))" using M(4) j2 by simp
          let ?g2 = "offset bpt ls a2 + j2"
          have g2: "?g2 < length R" "R ! ?g2 = recs bpt (ls ! a2) ! j2"
            using records_of_nth[OF M(3) j2l] by (simp_all add: Rls)
          have le: "?g \<le> ?g2" using gh j2 by simp
          obtain km where km: "Key (R ! ?g2) = KUser km"
            using is_user_nth[OF users, of ?g2] g2(1) by auto
          have kmhi: "km < hi" using M(5) j2 km by (auto dest: spec[of _ ?g2])
          obtain d2 where d2: "keyComparer bpt (KUser mk) (KUser km) = Some d2"
            "d2 < 0 \<longleftrightarrow> mk < km" "d2 = 0 \<longleftrightarrow> mk = km"
            using cmp by (rule comparer_ok_cases)
          have ab2: "\<forall>x. ?g2 < x \<and> x < length R \<longrightarrow> key_less (KUser hi) (Key (R ! x))"
            using above j2 by simp
          have mkkm: "?g \<noteq> ?g2 \<longrightarrow> mk < km"
          proof
            assume "?g \<noteq> ?g2"
            then have "key_less (Key (R ! ?g)) (Key (R ! ?g2))" using le g2(1) by (intro mono) simp_all
            then show "mk < km" using mk km by simp
          qed
          have idx: "index (recs bpt (ls ! a2)) (int i2 - 1) = Some (R ! ?g2)"
            using j2 j2l g2(2) by simp
          show ?thesis
          proof (cases "?g = ?g2")
            case True
            then have d20: "d2 = 0" using mk km d2(3) by simp
            have res: "findAndLocateRecords bpt (KUser lo) (KUser hi) = Some (ls ! a, int i, ls ! a, int i, True)"
              using prefix \<open>d0 \<noteq> 0\<close> more d1(1) mkhi d1(2) lt(2) M(1,2) False lr[OF M(3)] idx km d2(1) d20 min_key
              by (cases ok3) (simp_all add: Let_def)
            have "\<forall>x. ?g < x \<and> x < length R \<longrightarrow> key_less (KUser hi) (Key (R ! x))"
              using ab2 True by simp
            with res show ?thesis using mkhi by (intro single) simp_all
          next
            case ne: False
            then have d2n: "d2 < 0" using mkkm d2(2) by simp
            have res: "findAndLocateRecords bpt (KUser lo) (KUser hi) = Some (ls ! a, int i, ls ! a2, int j2, True)"
              using prefix \<open>d0 \<noteq> 0\<close> more d1(1) mkhi d1(2) lt(2) M(1,2) False lr[OF M(3)] idx km d2(1) d2n min_key j2
              by (cases ok3) (simp_all add: Let_def)
            from res M(3) j2l le km kmhi ab2 show ?thesis by (intro range[of a2 j2 km]) simp_all
          qed
        qed
      qed
    qed
  qed
qed




lemma sorted_wrt_filter_keys:
  "sorted_wrt key_less (map Key R) \<Longrightarrow> sorted_wrt key_less (map Key (filter P R))"
  by (induction R) auto

lemma separators_ok_example_tree: "separators_ok example_tree"
  by code_simp

lemma range_example_tree:
  "pairs (filter (in_range 4 9) (tree_records example_tree))
     = map (\<lambda>k. (KUser k, 10 * k)) [4, 5, 6, 7, 8, 9]"
  by code_simp

text \<open>
  C3 amended: for every tree that satisfies the invariants and every pair of keys of the
  caller with \<open>lo < hi\<close>, or with \<open>lo = hi\<close> a key of the tree, \<open>SearchForward(lo, hi)\<close>,
  the lower bound first, enumerates exactly the records with keys in \<open>[lo, hi]\<close> in
  ascending order, and \<open>SearchBackward(lo, hi)\<close> enumerates them in descending order.
\<close>

theorem C3_range_search:
  fixes bpt :: "('k::linorder, 'v) BPTree"
  assumes "wf_bpt bpt" "separators_ok bpt" "comparer_ok (keyComparer bpt)"
    and "lo < hi \<or> (lo = hi \<and> (\<exists>r \<in> set (tree_records bpt). Key r = KUser lo))"
  shows "(SearchForward bpt (KUser lo) (KUser hi) \<bind> enumerate_forward bpt)
        = Some (pairs (filter (in_range lo hi) (tree_records bpt)))
    \<and> (SearchBackward bpt (KUser lo) (KUser hi) \<bind> enumerate_backward bpt)
        = Some (rev (pairs (filter (in_range lo hi) (tree_records bpt))))
    \<and> sorted_wrt key_less (map fst (pairs (filter (in_range lo hi) (tree_records bpt))))"
proof -
  let ?ls = "tree_leaves bpt" and ?R = "tree_records bpt"
  let ?F = "filter (in_range lo hi) ?R"
  have "sorted_wrt key_less (map Key ?F)"
    using assms(1) by (intro sorted_wrt_filter_keys) (simp add: wf_bpt_def)
  then have asc: "sorted_wrt key_less (map fst (pairs ?F))" by (simp add: pairs_def comp_def)
  from findAndLocateRecords_user[OF assms]
  consider (none) "findAndLocateRecords bpt (KUser lo) (KUser hi) = Some (0, 0, 0, 0, False)" "?F = []"
    | (some) a i b j where
      "findAndLocateRecords bpt (KUser lo) (KUser hi) = Some (?ls ! a, int i, ?ls ! b, int j, True)"
      "a < length ?ls" "i < length (recs bpt (?ls ! a))"
      "b < length ?ls" "j < length (recs bpt (?ls ! b))"
      "offset bpt ?ls a + i \<le> offset bpt ?ls b + j"
      "?F = range_records ?R (offset bpt ?ls a + i) (offset bpt ?ls b + j)"
    by blast
  then have "(SearchForward bpt (KUser lo) (KUser hi) \<bind> enumerate_forward bpt) = Some (pairs ?F)
    \<and> (SearchBackward bpt (KUser lo) (KUser hi) \<bind> enumerate_backward bpt) = Some (rev (pairs ?F))"
  proof cases
    case none
    then show ?thesis
      by (simp add: SearchForward_def SearchBackward_def iterator_init_def
          enumerate_forward_end enumerate_backward_end pairs_def)
  next
    case some
    have "offset bpt ?ls a + i < length (records_of bpt ?ls)"
      using some(2,3) by (rule records_of_nth(1))
    then have "?R \<noteq> []" by (auto simp: tree_records_def)
    with assms(1) have ne: "\<forall>l \<in> set ?ls. recs bpt l \<noteq> []" by (rule wf_bpt_all_nonempty)
    have d: "distinct ?ls" and c: "chain_ok bpt ?ls" using assms(1) by (simp_all add: wf_bpt_def)
    have fw: "enumerate_forward bpt \<lparr>currentLeaf = ?ls ! a, currentRecordIndex = int i,
            lastLeaf = ?ls ! b, lastRecordIndex = int j, isAtEnd = False\<rparr>
         = Some (pairs (range_records (records_of bpt ?ls) (offset bpt ?ls a + i) (offset bpt ?ls b + j)))"
      using d c ne some(4,5,2,3,6) by (rule enumerate_forward_range)
    have bw: "enumerate_backward bpt \<lparr>currentLeaf = ?ls ! b, currentRecordIndex = int j,
            lastLeaf = ?ls ! a, lastRecordIndex = int i, isAtEnd = False\<rparr>
         = Some (rev (pairs (range_records (records_of bpt ?ls) (offset bpt ?ls a + i) (offset bpt ?ls b + j))))"
      using d c ne some(2,3,4,5,6) by (rule enumerate_backward_range)
    show ?thesis
      using some(1,7) fw bw
      by (simp add: SearchForward_def SearchBackward_def iterator_init_def tree_records_def)
  qed
  with asc show ?thesis by simp
qed

theorem C3_range_search_witness:
  "wf_bpt example_tree \<and> separators_ok example_tree \<and> comparer_ok (keyComparer example_tree)
   \<and> (4 :: int) < 9
   \<and> (SearchForward example_tree (KUser 4) (KUser 9) \<bind> enumerate_forward example_tree)
       = Some (map (\<lambda>k. (KUser k, 10 * k)) [4, 5, 6, 7, 8, 9])
   \<and> (SearchBackward example_tree (KUser 4) (KUser 9) \<bind> enumerate_backward example_tree)
       = Some (map (\<lambda>k. (KUser k, 10 * k)) [9, 8, 7, 6, 5, 4])"
proof -
  have c: "comparer_ok (keyComparer example_tree)"
    by (simp add: example_tree_def comparer_ok_intKeyComparer)
  have "(4 :: int) < 9 \<or> ((4 :: int) = 9 \<and> (\<exists>r \<in> set (tree_records example_tree). Key r = KUser 4))"
    by simp
  from C3_range_search[OF wf_bpt_example_tree separators_ok_example_tree c this] show ?thesis
    using wf_bpt_example_tree separators_ok_example_tree c by (simp add: range_example_tree)
qed


subsection \<open>The split of an internal node\<close>




lemma length_heap_store [simp]: "length (heap (store bpt p n)) = length (heap bpt)"
  by (simp add: store_def)



lemma length_heap_alloc [simp]: "length (heap (fst (alloc bpt n))) = Suc (length (heap bpt))"
  by (simp add: alloc_def)

















lemma full_root_tree_built:
  "(case Init 5 intKeyComparer \<bind> (\<lambda>bpt. apply_operations bpt (adds_upto 12)) of
      Some (results, bpt) \<Rightarrow>
        maxDegree bpt = maxDegree full_root_tree \<and> tail bpt = tail full_root_tree
        \<and> head bpt = head full_root_tree \<and> root bpt = root full_root_tree
        \<and> height bpt = height full_root_tree \<and> heap bpt = heap full_root_tree
        \<and> map_option fst (findRecord bpt (KUser 13)) = Some [RPC 2 4, RPC 6 4]
    | None \<Rightarrow> False)"
  by code_simp

lemma full_inner_tree_built:
  "(case Init 5 intKeyComparer \<bind> (\<lambda>bpt. apply_operations bpt (adds_upto 16)) of
      Some (results, bpt) \<Rightarrow>
        maxDegree bpt = maxDegree full_inner_tree \<and> tail bpt = tail full_inner_tree
        \<and> head bpt = head full_inner_tree \<and> root bpt = root full_inner_tree
        \<and> height bpt = height full_inner_tree \<and> heap bpt = heap full_inner_tree
        \<and> map_option fst (findRecord bpt (KUser 17)) = Some [RPC 7 1, RPC 8 4, RPC 10 4]
    | None \<Rightarrow> False)"
  by code_simp

lemma full_inner_tree2_built:
  "(case Init2 4 intKeyComparer
         \<bind> (\<lambda>bpt. add_all2 bpt (map (\<lambda>k. (KUser (int k), 10 * int k)) [1..<33])) of
      Some bpt \<Rightarrow>
        maxDegree bpt = maxDegree full_inner_tree2 \<and> tail bpt = tail full_inner_tree2
        \<and> head bpt = head full_inner_tree2 \<and> root bpt = root full_inner_tree2
        \<and> height bpt = height full_inner_tree2 \<and> heap bpt = heap full_inner_tree2
        \<and> map_option fst (findRecord bpt (KUser 33)) = Some [RPC 6 1, RPC 7 3, RPC 11 4]
    | None \<Rightarrow> False)"
  by code_simp




lemma store_maxDegree_heap [simp]:
  "maxDegree (fst (alloc bpt n)) = maxDegree bpt" "root (fst (alloc bpt n)) = root bpt"
  by (simp_all add: alloc_def)























end
